theory Spec2Isabelle
  imports Main "HOL-Library.Log_Nat"
begin

section \<open>The JavaScript date library, as far as the pages use it\<close>

text \<open>
  A \<open>Date\<close> is its time value: the milliseconds since the epoch, an integer.  The
  functions below follow the date algorithms of the language standard (ECMA-262, section
  "Date Objects").  The pages do all their date arithmetic in the viewer's local time, so
  the host's time zone is a parameter of every function that reads or sets local fields.
\<close>

definition msPerDay :: int where
  "msPerDay = 86400000"

definition Day :: "int \<Rightarrow> int" where
  "Day t = t div msPerDay"

definition TimeWithinDay :: "int \<Rightarrow> int" where
  "TimeWithinDay t = t mod msPerDay"

definition DaysInYear :: "int \<Rightarrow> int" where
  "DaysInYear y =
     (if y mod 4 \<noteq> 0 then 365
      else if y mod 100 \<noteq> 0 then 366
      else if y mod 400 \<noteq> 0 then 365
      else 366)"

definition DayFromYear :: "int \<Rightarrow> int" where
  "DayFromYear y =
     365 * (y - 1970) + (y - 1969) div 4 - (y - 1901) div 100 + (y - 1601) div 400"

text \<open>
  The standard describes \<open>YearFromTime\<close> as the largest year whose first day is not after
  the given day.  It is computed here from the day number by the cycles of the Gregorian
  calendar (400 years, 100 years, 4 years, 1 year), counted from 1 January of year 1,
  which is day \<open>-719162\<close>; \<open>YearFromDay_bounds\<close> below shows that this is that year.
\<close>

definition YearFromDay :: "int \<Rightarrow> int" where
  "YearFromDay d =
     (let n = d + 719162;
          n400 = n div 146097; r1 = n mod 146097;
          n100 = min 3 (r1 div 36524); r2 = r1 - 36524 * n100;
          n4 = r2 div 1461; r3 = r2 mod 1461;
          n1 = min 3 (r3 div 365)
      in 1 + 400 * n400 + 100 * n100 + 4 * n4 + n1)"

definition YearFromTime :: "int \<Rightarrow> int" where
  "YearFromTime t = YearFromDay (Day t)"

definition InLeapYear :: "int \<Rightarrow> int" where
  "InLeapYear t = (if DaysInYear (YearFromTime t) = 366 then 1 else 0)"

definition DayWithinYear :: "int \<Rightarrow> int" where
  "DayWithinYear t = Day t - DayFromYear (YearFromTime t)"

definition MonthFromTime :: "int \<Rightarrow> int" where
  "MonthFromTime t =
     (let d = DayWithinYear t; l = InLeapYear t
      in if d < 31 then 0
         else if d < 59 + l then 1
         else if d < 90 + l then 2
         else if d < 120 + l then 3
         else if d < 151 + l then 4
         else if d < 181 + l then 5
         else if d < 212 + l then 6
         else if d < 243 + l then 7
         else if d < 273 + l then 8
         else if d < 304 + l then 9
         else if d < 334 + l then 10
         else 11)"

definition DateFromTime :: "int \<Rightarrow> int" where
  "DateFromTime t =
     (let d = DayWithinYear t; l = InLeapYear t; m = MonthFromTime t
      in if m = 0 then d + 1
         else if m = 1 then d - 30
         else if m = 2 then d - 58 - l
         else if m = 3 then d - 89 - l
         else if m = 4 then d - 119 - l
         else if m = 5 then d - 150 - l
         else if m = 6 then d - 180 - l
         else if m = 7 then d - 211 - l
         else if m = 8 then d - 242 - l
         else if m = 9 then d - 272 - l
         else if m = 10 then d - 303 - l
         else d - 333 - l)"


text \<open>The number of days of a year that lie before its month \<open>m\<close> (0 = January).\<close>

definition DaysBeforeMonth :: "int \<Rightarrow> int \<Rightarrow> int" where
  "DaysBeforeMonth y m =
     (let l = (if DaysInYear y = 366 then 1 else 0)
      in if m = 0 then 0
         else if m = 1 then 31
         else if m = 2 then 59 + l
         else if m = 3 then 90 + l
         else if m = 4 then 120 + l
         else if m = 5 then 151 + l
         else if m = 6 then 181 + l
         else if m = 7 then 212 + l
         else if m = 8 then 243 + l
         else if m = 9 then 273 + l
         else if m = 10 then 304 + l
         else 334 + l)"

text \<open>
  \<open>MakeDay\<close>: the day number of day-of-month 1 of the given month (months outside 0..11
  carry into the year), plus \<open>date - 1\<close>; a \<open>date\<close> outside the month carries into the
  neighbouring months, which is how \<open>setDate(getDate() - 1)\<close> steps back over the start of
  a month.
\<close>

definition MakeDay :: "int \<Rightarrow> int \<Rightarrow> int \<Rightarrow> int" where
  "MakeDay year month date =
     (let ym = year + month div 12; mn = month mod 12
      in DayFromYear ym + DaysBeforeMonth ym mn + date - 1)"


definition MakeDate :: "int \<Rightarrow> int \<Rightarrow> int" where
  "MakeDate day time = day * msPerDay + time"

text \<open>
  The host's time zone, as the standard's \<open>LocalTZA\<close> sees it: \<open>offset_at z t\<close> is the offset of
  local time from UTC in force at the instant \<open>t\<close> (it changes where daylight saving starts
  or ends), and \<open>offset_of_local z t\<close> is the offset by which the local time value \<open>t\<close> is
  read (for a local time that a change of the offset repeats or skips, the standard takes
  the offset in force before the change).
\<close>

record zone =
  offset_at :: "int \<Rightarrow> int"
  offset_of_local :: "int \<Rightarrow> int"

definition LocalTime :: "zone \<Rightarrow> int \<Rightarrow> int" where
  "LocalTime z t = t + offset_at z t"

definition UTC :: "zone \<Rightarrow> int \<Rightarrow> int" where
  "UTC z t = t - offset_of_local z t"

definition getFullYear :: "zone \<Rightarrow> int \<Rightarrow> int" where
  "getFullYear z d = YearFromTime (LocalTime z d)"

definition getMonth :: "zone \<Rightarrow> int \<Rightarrow> int" where
  "getMonth z d = MonthFromTime (LocalTime z d)"

definition getDate :: "zone \<Rightarrow> int \<Rightarrow> int" where
  "getDate z d = DateFromTime (LocalTime z d)"


definition setDate :: "zone \<Rightarrow> int \<Rightarrow> int \<Rightarrow> int" where
  "setDate z d dt =
     (let t = LocalTime z d
      in UTC z (MakeDate (MakeDay (YearFromTime t) (MonthFromTime t) dt) (TimeWithinDay t)))"


text \<open>
  Two properties of a zone that the theorems below name where they need them.  A zone
  \<open>keeps_day\<close> when reading a local time and looking at the clock again never lands on
  another calendar day: true wherever the offset changes by an hour in the small hours, as
  daylight saving does, false where a change skips the last minutes of a day or a whole day.
  \<open>has_local_time z t\<close> says that the local time \<open>t\<close> exists on the zone's clock, that is, no
  change of the offset skips it.
\<close>

definition keeps_day :: "zone \<Rightarrow> bool" where
  "keeps_day z \<longleftrightarrow> (\<forall>t. Day (LocalTime z (UTC z t)) = Day t)"

definition has_local_time :: "zone \<Rightarrow> int \<Rightarrow> bool" where
  "has_local_time z t \<longleftrightarrow> LocalTime z (UTC z t) = t"

text \<open>
  Two zones for the examples: a zone of constant offset, and Central European time around
  the end of summer time 2026 (the offset falls from two hours to one on 25 October 2026 at
  01:00 UTC, when the local clock goes from 03:00 back to 02:00).
\<close>

definition fixed_offset :: "int \<Rightarrow> zone" where
  "fixed_offset tz = \<lparr>offset_at = (\<lambda>t. tz), offset_of_local = (\<lambda>t. tz)\<rparr>"


section \<open>Day keys and the start of the week\<close>

text \<open>
  \<open>local_day\<close> is the number of the local calendar day an instant falls on; the pages
  never compute it, it only serves to state what they do.
\<close>

definition local_day :: "zone \<Rightarrow> int \<Rightarrow> int" where
  "local_day z t = Day (LocalTime z t)"

definition digit_char :: "nat \<Rightarrow> char" where
  "digit_char n = ''0123456789'' ! n"

fun digits_of_nat :: "nat \<Rightarrow> string" where
  "digits_of_nat n =
     (if n < 10 then [digit_char n] else digits_of_nat (n div 10) @ [digit_char (n mod 10)])"

definition NumberToString :: "int \<Rightarrow> string" where
  "NumberToString i =
     (if i < 0 then CHR ''-'' # digits_of_nat (nat (- i)) else digits_of_nat (nat i))"

definition padStart :: "string \<Rightarrow> nat \<Rightarrow> string \<Rightarrow> string" where
  "padStart s n pad =
     (if n \<le> length s \<or> pad = [] then s
      else take (n - length s) (concat (replicate (n - length s) pad)) @ s)"

definition dateKeyLocal :: "zone \<Rightarrow> int \<Rightarrow> string" where
  "dateKeyLocal z dt =
     (let y = getFullYear z dt;
          m = padStart (NumberToString (getMonth z dt + 1)) 2 ''0'';
          d = padStart (NumberToString (getDate z dt)) 2 ''0''
      in NumberToString y @ ''-'' @ m @ ''-'' @ d)"

text \<open>
  The key of the calendar day number \<open>d\<close>: the key \<open>dateKeyLocal\<close> gives to the first instant
  of that day on a clock without offset, and, by \<open>dateKeyLocal_day_key\<close> below, to every
  instant of local day \<open>d\<close> in every zone.
\<close>

definition day_key :: "int \<Rightarrow> string" where
  "day_key d = dateKeyLocal (fixed_offset 0) (d * msPerDay)"


subsection \<open>The calendar fields of a day\<close>

lemma YearFromDay_cycles:
  fixes d :: int
  shows "\<exists>a b c e doy. 0 \<le> b \<and> b \<le> 3 \<and> 0 \<le> c \<and> c \<le> 24 \<and> 0 \<le> e \<and> e \<le> 3 \<and> 0 \<le> doy
    \<and> (e < 3 \<longrightarrow> doy < 365) \<and> doy \<le> 365
    \<and> (c = 24 \<and> b < 3 \<longrightarrow> doy < 365)
    \<and> YearFromDay d = 1 + 400 * a + 100 * b + 4 * c + e
    \<and> d + 719162 = 146097 * a + 36524 * b + 1461 * c + 365 * e + doy"
proof -
  define n where "n = d + 719162"
  define a where "a = n div 146097"
  define r1 where "r1 = n mod 146097"
  define b where "b = min 3 (r1 div 36524)"
  define r2 where "r2 = r1 - 36524 * b"
  define c where "c = r2 div 1461"
  define r3 where "r3 = r2 mod 1461"
  define e where "e = min 3 (r3 div 365)"
  define doy where "doy = r3 - 365 * e"
  have n: "n = 146097 * a + r1" and r1: "0 \<le> r1" "r1 < 146097"
    by (simp_all add: a_def r1_def)
  have b: "0 \<le> b" "b \<le> 3"
    using r1 by (simp_all add: b_def pos_imp_zdiv_nonneg_iff)
  have q1: "r1 = 36524 * (r1 div 36524) + r1 mod 36524" by simp
  have m1: "0 \<le> r1 mod 36524" "r1 mod 36524 < 36524" by simp_all
  have r2: "0 \<le> r2" "r2 \<le> 36524" "b < 3 \<Longrightarrow> r2 < 36524"
    using r1 q1 m1 unfolding r2_def b_def min_def by (auto split: if_splits)
  have r2c: "r2 = 1461 * c + r3" and r3: "0 \<le> r3" "r3 < 1461"
    by (simp_all add: c_def r3_def)
  have c: "0 \<le> c" "c \<le> 24"
    using r2 r2c r3 by linarith+
  have e: "0 \<le> e" "e \<le> 3"
    using r3 by (simp_all add: e_def pos_imp_zdiv_nonneg_iff)
  have q3: "r3 = 365 * (r3 div 365) + r3 mod 365" by simp
  have m3: "0 \<le> r3 mod 365" "r3 mod 365 < 365" by simp_all
  have doy: "0 \<le> doy" "e < 3 \<Longrightarrow> doy < 365" "doy \<le> 365"
    using r3 q3 m3 unfolding doy_def e_def min_def by (auto split: if_splits)
  have edge: "c = 24 \<Longrightarrow> b < 3 \<Longrightarrow> doy < 365"
    using r2 r2c r3 e doy unfolding doy_def by linarith
  have y: "YearFromDay d = 1 + 400 * a + 100 * b + 4 * c + e"
    unfolding YearFromDay_def Let_def a_def b_def c_def e_def r1_def r2_def r3_def n_def
    by simp
  have s: "d + 719162 = 146097 * a + 36524 * b + 1461 * c + 365 * e + doy"
    using n r2c unfolding doy_def r2_def n_def by linarith
  show ?thesis
    using b c e doy edge y s by blast
qed

lemma DayFromYear_cycles:
  fixes a b c e :: int
  assumes "0 \<le> b" "b \<le> 3" "0 \<le> c" "c \<le> 24" "0 \<le> e" "e \<le> 3"
  shows "DayFromYear (1 + 400 * a + 100 * b + 4 * c + e)
         = 146097 * a + 36524 * b + 1461 * c + 365 * e - 719162"
proof -
  let ?y = "1 + 400 * a + 100 * b + 4 * c + e"
  have d4: "(?y - 1969) div 4 = 100 * a + 25 * b + c - 492"
    by (rule int_div_pos_eq[where r = e]) (use assms in auto)
  have d100: "(?y - 1901) div 100 = 4 * a + b - 19"
    by (rule int_div_pos_eq[where r = "4 * c + e"]) (use assms in auto)
  have d400: "(?y - 1601) div 400 = a - 4"
    by (rule int_div_pos_eq[where r = "100 * b + 4 * c + e"]) (use assms in auto)
  show ?thesis
    unfolding DayFromYear_def d4 d100 d400 by (simp add: algebra_simps)
qed

lemma DaysInYear_cycles:
  fixes a b c e :: int
  assumes "0 \<le> b" "b \<le> 3" "0 \<le> c" "c \<le> 24" "0 \<le> e" "e \<le> 3"
  shows "DaysInYear (1 + 400 * a + 100 * b + 4 * c + e)
         = (if e = 3 \<and> (c < 24 \<or> b = 3) then 366 else 365)"
proof -
  let ?y = "1 + 400 * a + 100 * b + 4 * c + e"
  have m4: "?y mod 4 = (1 + e) mod 4"
    using mod_mult_self4[of 4 "100 * a + 25 * b + c" "1 + e"] by (simp add: algebra_simps)
  have m100: "?y mod 100 = (1 + 4 * c + e) mod 100"
    using mod_mult_self4[of 100 "4 * a + b" "1 + 4 * c + e"] by (simp add: algebra_simps)
  have m400: "?y mod 400 = (1 + 100 * b + 4 * c + e) mod 400"
    using mod_mult_self4[of 400 "a" "1 + 100 * b + 4 * c + e"] by (simp add: algebra_simps)
  have s100: "(1 + 4 * c + e) mod 100 = (if c = 24 \<and> e = 3 then 0 else 1 + 4 * c + e)"
    using assms by auto
  have s400: "(1 + 100 * b + 4 * c + e) mod 400 
      = (if b = 3 \<and> c = 24 \<and> e = 3 then 0 else 1 + 100 * b + 4 * c + e)"
    using assms by auto
  have s4: "(1 + e) mod 4 = (if e = 3 then 0 else 1 + e)"
    using assms by auto
  show ?thesis
    unfolding DaysInYear_def m4 m100 m400 s4 s100 s400 using assms by auto
qed

lemma YearFromDay_bounds:
  "DayFromYear (YearFromDay d) \<le> d" "d < DayFromYear (YearFromDay d) + DaysInYear (YearFromDay d)"
proof -
  obtain a b c e doy where h:
    "0 \<le> b" "b \<le> 3" "0 \<le> c" "c \<le> 24" "0 \<le> e" "e \<le> 3" "0 \<le> doy"
    "e < 3 \<longrightarrow> doy < 365" "doy \<le> 365"
    "c = 24 \<and> b < 3 \<longrightarrow> doy < 365"
    "YearFromDay d = 1 + 400 * a + 100 * b + 4 * c + e"
    "d + 719162 = 146097 * a + 36524 * b + 1461 * c + 365 * e + doy"
    using YearFromDay_cycles[of d] by blast
  have F: "DayFromYear (YearFromDay d) = 146097 * a + 36524 * b + 1461 * c + 365 * e - 719162"
    unfolding h(11) using h(1-6) by (rule DayFromYear_cycles)
  have L: "DaysInYear (YearFromDay d) = (if e = 3 \<and> (c < 24 \<or> b = 3) then 366 else 365)"
    unfolding h(11) using h(1-6) by (rule DaysInYear_cycles)
  show "DayFromYear (YearFromDay d) \<le> d" using F h(7,12) by linarith
  show "d < DayFromYear (YearFromDay d) + DaysInYear (YearFromDay d)"
    unfolding F L using h by (auto split: if_splits)
qed

lemma DayWithinYear_bounds:
  "0 \<le> DayWithinYear t" "DayWithinYear t < DaysInYear (YearFromTime t)"
  using YearFromDay_bounds[of "Day t"] by (simp_all add: DayWithinYear_def YearFromTime_def)

lemma DaysInYear_cases: "DaysInYear y = 365 \<or> DaysInYear y = 366"
  by (simp add: DaysInYear_def)

lemma MonthFromTime_range: "0 \<le> MonthFromTime t" "MonthFromTime t \<le> 11"
  by (simp_all add: MonthFromTime_def Let_def)

lemma DateFromTime_range: "1 \<le> DateFromTime t" "DateFromTime t \<le> 31"
  using DayWithinYear_bounds[of t] DaysInYear_cases[of "YearFromTime t"]
  by (auto simp: DateFromTime_def MonthFromTime_def InLeapYear_def Let_def split: if_splits)

lemma MakeDay_of_fields:
  "MakeDay (YearFromTime t) (MonthFromTime t) (DateFromTime t + k) = Day t + k"
proof -
  have m: "MonthFromTime t div 12 = 0" "MonthFromTime t mod 12 = MonthFromTime t"
    using MonthFromTime_range[of t] by simp_all
  have "DaysBeforeMonth (YearFromTime t) (MonthFromTime t) + DateFromTime t - 1 = DayWithinYear t"
    by (simp add: DaysBeforeMonth_def DateFromTime_def MonthFromTime_def InLeapYear_def Let_def)
  then show ?thesis
    unfolding MakeDay_def Let_def m by (simp add: DayWithinYear_def)
qed

subsection \<open>Decimal text\<close>

definition nat_of_digits :: "string \<Rightarrow> nat" where
  "nat_of_digits s = foldl (\<lambda>a c. 10 * a + (of_char c - 48)) 0 s"

lemma nat_of_digits_snoc: "nat_of_digits (s @ [c]) = 10 * nat_of_digits s + (of_char c - 48)"
  by (simp add: nat_of_digits_def)

lemma less_10_cases: "n < 10 \<Longrightarrow> n \<in> {0, 1, 2, 3, 4, 5, 6, 7, 8, 9 :: nat}"
  by auto

lemma of_char_digit_char: "n < 10 \<Longrightarrow> of_char (digit_char n) = 48 + n"
  by (drule less_10_cases) (auto simp: digit_char_def)

lemma nat_of_digits_of_nat: "nat_of_digits (digits_of_nat n) = n"
proof (induction n rule: digits_of_nat.induct)
  case (1 n)
  show ?case
  proof (cases "n < 10")
    case True
    then show ?thesis
      using nat_of_digits_snoc[of "[]" "digit_char n"]
      by (simp add: of_char_digit_char nat_of_digits_def)
  next
    case False
    then have "nat_of_digits (digits_of_nat (n div 10)) = n div 10"
      using 1 by simp
    moreover have "digits_of_nat n = digits_of_nat (n div 10) @ [digit_char (n mod 10)]"
      using False by (subst digits_of_nat.simps) simp
    ultimately show ?thesis
      by (simp add: nat_of_digits_snoc of_char_digit_char)
  qed
qed

lemma digits_of_nat_inj: "digits_of_nat a = digits_of_nat b \<Longrightarrow> a = b"
  using nat_of_digits_of_nat[of a] nat_of_digits_of_nat[of b] by simp

lemma digits_of_nat_no_minus: "CHR ''-'' \<notin> set (digits_of_nat n)"
proof (induction n rule: digits_of_nat.induct)
  case (1 n)
  have d: "digit_char k \<noteq> CHR ''-''" if "k < 10" for k
    using less_10_cases[OF that] by (auto simp: digit_char_def)
  show ?case
  proof (cases "n < 10")
    case True
    then show ?thesis using d[of n] by auto
  next
    case False
    then have "digits_of_nat n = digits_of_nat (n div 10) @ [digit_char (n mod 10)]"
      by (subst digits_of_nat.simps) simp
    then show ?thesis using 1 False d[of "n mod 10"] by auto
  qed
qed

lemma digits_of_nat_nonempty: "digits_of_nat n \<noteq> []"
  by (subst digits_of_nat.simps) simp

lemma NumberToString_inj:
  assumes "NumberToString a = NumberToString b"
  shows "a = b"
proof -
  have neg_pos: False if "x < 0" "\<not> y < 0" "NumberToString x = NumberToString y" for x y
  proof -
    from that have "CHR ''-'' # digits_of_nat (nat (- x)) = digits_of_nat (nat y)"
      by (simp add: NumberToString_def)
    then have "CHR ''-'' \<in> set (digits_of_nat (nat y))"
      by (metis list.set_intros(1))
    then show False
      using digits_of_nat_no_minus by blast
  qed
  consider "a < 0" "b < 0" | "a < 0" "\<not> b < 0" | "\<not> a < 0" "b < 0" | "\<not> a < 0" "\<not> b < 0"
    by blast
  then show ?thesis
  proof cases
    case 1
    with assms have "digits_of_nat (nat (- a)) = digits_of_nat (nat (- b))"
      by (simp add: NumberToString_def)
    then have "nat (- a) = nat (- b)" by (rule digits_of_nat_inj)
    with 1 show ?thesis by simp
  next
    case 2
    then show ?thesis using neg_pos[of a b] assms by blast
  next
    case 3
    then show ?thesis using neg_pos[of b a] assms by simp
  next
    case 4
    with assms have "digits_of_nat (nat a) = digits_of_nat (nat b)"
      by (simp add: NumberToString_def)
    then have "nat a = nat b" by (rule digits_of_nat_inj)
    with 4 show ?thesis by simp
  qed
qed

subsection \<open>Stepping a date by whole days\<close>

lemma Day_add_days: "Day (t + k * msPerDay) = Day t + k"
  by (simp add: Day_def msPerDay_def)

lemma Day_TimeWithinDay: "Day t * msPerDay + TimeWithinDay t = t"
  by (simp add: Day_def TimeWithinDay_def)

lemma Day_MakeDate: "Day (MakeDate d (TimeWithinDay t)) = d"
  by (simp add: MakeDate_def Day_def TimeWithinDay_def msPerDay_def)


lemma fields_of_Day:
  assumes "Day s = Day t"
  shows "YearFromTime s = YearFromTime t" "MonthFromTime s = MonthFromTime t"
    "DateFromTime s = DateFromTime t"
proof -
  show y: "YearFromTime s = YearFromTime t"
    using assms by (simp add: YearFromTime_def)
  have d: "DayWithinYear s = DayWithinYear t" and l: "InLeapYear s = InLeapYear t"
    using assms y by (simp_all add: DayWithinYear_def InLeapYear_def)
  show m: "MonthFromTime s = MonthFromTime t"
    unfolding MonthFromTime_def d l ..
  show "DateFromTime s = DateFromTime t"
    unfolding DateFromTime_def d l m ..
qed

lemma Day_of_fields:
  assumes "YearFromTime s = YearFromTime t" "MonthFromTime s = MonthFromTime t"
    "DateFromTime s = DateFromTime t"
  shows "Day s = Day t"
  using MakeDay_of_fields[of s 0] MakeDay_of_fields[of t 0] assms by simp

lemma local_day_UTC: "keeps_day z \<Longrightarrow> local_day z (UTC z t) = Day t"
  by (simp add: keeps_day_def local_day_def)

lemma local_day_setDate:
  assumes "keeps_day z"
  shows "local_day z (setDate z d (getDate z d + k)) = local_day z d + k"
proof -
  let ?t = "LocalTime z d"
  have "local_day z (setDate z d (getDate z d + k))
      = Day (MakeDate (MakeDay (YearFromTime ?t) (MonthFromTime ?t) (DateFromTime ?t + k))
          (TimeWithinDay ?t))"
    by (simp add: setDate_def getDate_def Let_def local_day_UTC[OF assms])
  also have "\<dots> = Day ?t + k"
    unfolding MakeDay_of_fields by (rule Day_MakeDate)
  finally show ?thesis by (simp add: local_day_def)
qed

lemma local_day_setDate_prev:
  "keeps_day z \<Longrightarrow> local_day z (setDate z d (getDate z d - 1)) = local_day z d - 1"
  using local_day_setDate[of z d "- 1"] by simp



lemma keeps_day_fixed_offset: "keeps_day (fixed_offset tz)"
  by (simp add: keeps_day_def fixed_offset_def LocalTime_def UTC_def)

lemma has_local_time_fixed_offset: "has_local_time (fixed_offset tz) t"
  by (simp add: has_local_time_def fixed_offset_def LocalTime_def UTC_def)



lemma local_day_fixed_offset: "local_day (fixed_offset tz) t = (t + tz) div 86400000"
  by (simp add: local_day_def LocalTime_def fixed_offset_def Day_def msPerDay_def)


subsection \<open>One key per local calendar day\<close>

lemma pad2:
  assumes "0 \<le> v" "v < 100"
  shows "padStart (NumberToString v) 2 ''0'' = [digit_char (nat v div 10), digit_char (nat v mod 10)]"
proof (cases "v < 10")
  case True
  then have "NumberToString v = [digit_char (nat v)]"
    using assms by (simp add: NumberToString_def)
  then show ?thesis
    using True assms by (simp add: padStart_def digit_char_def)
next
  case False
  then have "digits_of_nat (nat v) = digits_of_nat (nat v div 10) @ [digit_char (nat v mod 10)]"
    by (subst digits_of_nat.simps) simp
  moreover have "digits_of_nat (nat v div 10) = [digit_char (nat v div 10)]"
    using assms by (subst digits_of_nat.simps) simp
  ultimately have "NumberToString v = [digit_char (nat v div 10), digit_char (nat v mod 10)]"
    using assms by (simp add: NumberToString_def)
  then show ?thesis
    by (simp add: padStart_def)
qed

lemma digit_char_inj:
  assumes "a < 10" "b < 10" "digit_char a = digit_char b"
  shows "a = b"
proof -
  have "(of_char (digit_char a) :: nat) = of_char (digit_char b)"
    using assms(3) by (rule arg_cong)
  then have "48 + a = 48 + b"
    unfolding of_char_digit_char[OF assms(1)] of_char_digit_char[OF assms(2)] .
  then show ?thesis by simp
qed

lemma pad2_inj:
  assumes "0 \<le> v" "v < 100" "0 \<le> w" "w < 100"
    "padStart (NumberToString v) 2 ''0'' = padStart (NumberToString w) 2 ''0''"
  shows "v = w"
proof -
  have "digit_char (nat v div 10) = digit_char (nat w div 10)"
    "digit_char (nat v mod 10) = digit_char (nat w mod 10)"
    using assms by (simp_all add: pad2)
  then have "nat v div 10 = nat w div 10" "nat v mod 10 = nat w mod 10"
    using assms by (auto intro!: digit_char_inj)
  then have "nat v = nat w"
    by (metis div_mult_mod_eq)
  then show ?thesis using assms by simp
qed

lemma dateKeyLocal_eq_iff:
  "dateKeyLocal z a = dateKeyLocal z' b \<longleftrightarrow> local_day z a = local_day z' b"
proof
  assume "local_day z a = local_day z' b"
  then have "Day (LocalTime z a) = Day (LocalTime z' b)"
    by (simp add: local_day_def)
  from fields_of_Day[OF this] show "dateKeyLocal z a = dateKeyLocal z' b"
    by (simp add: dateKeyLocal_def getFullYear_def getMonth_def getDate_def)
next
  assume eq: "dateKeyLocal z a = dateKeyLocal z' b"
  let ?s = "LocalTime z a" and ?t = "LocalTime z' b"
  have ms: "0 \<le> MonthFromTime ?s + 1" "MonthFromTime ?s + 1 < 100"
    and mt: "0 \<le> MonthFromTime ?t + 1" "MonthFromTime ?t + 1 < 100"
    using MonthFromTime_range[of ?s] MonthFromTime_range[of ?t] by simp_all
  have ds: "0 \<le> DateFromTime ?s" "DateFromTime ?s < 100"
    and dt: "0 \<le> DateFromTime ?t" "DateFromTime ?t < 100"
    using DateFromTime_range[of ?s] DateFromTime_range[of ?t] by simp_all
  have "NumberToString (YearFromTime ?s) @
          [CHR ''-'', digit_char (nat (MonthFromTime ?s + 1) div 10), digit_char (nat (MonthFromTime ?s + 1) mod 10),
           CHR ''-'', digit_char (nat (DateFromTime ?s) div 10), digit_char (nat (DateFromTime ?s) mod 10)]
      = NumberToString (YearFromTime ?t) @
          [CHR ''-'', digit_char (nat (MonthFromTime ?t + 1) div 10), digit_char (nat (MonthFromTime ?t + 1) mod 10),
           CHR ''-'', digit_char (nat (DateFromTime ?t) div 10), digit_char (nat (DateFromTime ?t) mod 10)]"
    using eq unfolding dateKeyLocal_def getFullYear_def getMonth_def getDate_def Let_def
      pad2[OF ms] pad2[OF mt] pad2[OF ds] pad2[OF dt] by simp
  then have y: "NumberToString (YearFromTime ?s) = NumberToString (YearFromTime ?t)"
    and m: "padStart (NumberToString (MonthFromTime ?s + 1)) 2 ''0'' = padStart (NumberToString (MonthFromTime ?t + 1)) 2 ''0''"
    and d: "padStart (NumberToString (DateFromTime ?s)) 2 ''0'' = padStart (NumberToString (DateFromTime ?t)) 2 ''0''"
    unfolding pad2[OF ms] pad2[OF mt] pad2[OF ds] pad2[OF dt] by simp_all
  have "YearFromTime ?s = YearFromTime ?t"
    using y by (rule NumberToString_inj)
  moreover have "MonthFromTime ?s = MonthFromTime ?t"
    using pad2_inj[OF ms mt m] by simp
  moreover have "DateFromTime ?s = DateFromTime ?t"
    using pad2_inj[OF ds dt d] .
  ultimately show "local_day z a = local_day z' b"
    unfolding local_day_def by (rule Day_of_fields)
qed

lemma dateKeyLocal_day_key: "dateKeyLocal z t = day_key (local_day z t)"
  unfolding day_key_def dateKeyLocal_eq_iff
  by (simp add: local_day_fixed_offset msPerDay_def)

lemma day_key_eq_iff: "day_key a = day_key b \<longleftrightarrow> a = b"
  unfolding day_key_def dateKeyLocal_eq_iff
  by (simp add: local_day_fixed_offset msPerDay_def)

subsection \<open>The start of the week\<close>




section \<open>JavaScript numbers\<close>

text \<open>
  A JavaScript number is an IEEE 754 double.  A finite double is modelled by the rational
  number it denotes, the two infinities and NaN by constructors of their own; the two
  zeros are not told apart (nothing in the pages divides by a zero or prints one).
  Every arithmetic result is rounded to the nearest double, ties to the even significand,
  by \<open>to_double\<close>: a double has a 53-bit significand and a binary exponent from -1022
  to 1023, below which the spacing stays that of exponent -1022 (subnormal numbers) and
  above which the result is an infinity.
\<close>

datatype jsnum = Num rat | PosInf | NegInf | NaN

text \<open>\<open>ilog2 x\<close> is the binary exponent of \<open>x \<noteq> 0\<close>: the \<open>e\<close> with \<open>2^e \<le> |x| < 2^(e+1)\<close>.\<close>

definition ilog2 :: "rat \<Rightarrow> int" where
  "ilog2 x =
     (let (p, q) = quotient_of \<bar>x\<bar>;
          d = bitlen p - bitlen q
      in if 2 powi d \<le> \<bar>x\<bar> then d else d - 1)"

text \<open>Rounding to the nearest integer, a tie going to the even neighbour.\<close>

definition round_even :: "rat \<Rightarrow> int" where
  "round_even r =
     (let f = \<lfloor>r\<rfloor>; d = r - of_int f
      in if d < 1 / 2 then f
         else if 1 / 2 < d then f + 1
         else if even f then f else f + 1)"

text \<open>
  With \<open>e\<close> the exponent of \<open>x\<close> (at least -1022), doubles near \<open>x\<close> are the multiples of
  \<open>2^(e-52)\<close>.  The rounded significand \<open>n\<close> is at most \<open>2^53\<close>, so the result reaches
  \<open>2^1024\<close>, and overflows, exactly when \<open>e\<close> exceeds 1023 or \<open>e\<close> is 1023 and \<open>n\<close> reached
  \<open>2^53\<close>.
\<close>

definition to_double :: "rat \<Rightarrow> jsnum" where
  "to_double x =
     (if x = 0 then Num 0
      else let e = max (ilog2 x) (- 1022);
               n = round_even (x / 2 powi (e - 52))
           in if 1023 < e \<or> (e = 1023 \<and> 2 ^ 53 \<le> \<bar>n\<bar>)
              then (if 0 < x then PosInf else NegInf)
              else Num (of_int n * 2 powi (e - 52)))"

text \<open>The operators \<open>+\<close>, \<open>*\<close>, \<open>/\<close> on numbers, \<open>Math.round\<close> and \<open>Math.max\<close>.\<close>

fun js_add :: "jsnum \<Rightarrow> jsnum \<Rightarrow> jsnum" where
  "js_add (Num a) (Num b) = to_double (a + b)"
| "js_add NaN y = NaN"
| "js_add x NaN = NaN"
| "js_add PosInf NegInf = NaN"
| "js_add NegInf PosInf = NaN"
| "js_add PosInf y = PosInf"
| "js_add x PosInf = PosInf"
| "js_add NegInf y = NegInf"
| "js_add x NegInf = NegInf"

fun js_mul :: "jsnum \<Rightarrow> jsnum \<Rightarrow> jsnum" where
  "js_mul (Num a) (Num b) = to_double (a * b)"
| "js_mul NaN y = NaN"
| "js_mul x NaN = NaN"
| "js_mul (Num a) PosInf = (if a = 0 then NaN else if 0 < a then PosInf else NegInf)"
| "js_mul (Num a) NegInf = (if a = 0 then NaN else if 0 < a then NegInf else PosInf)"
| "js_mul PosInf (Num b) = (if b = 0 then NaN else if 0 < b then PosInf else NegInf)"
| "js_mul NegInf (Num b) = (if b = 0 then NaN else if 0 < b then NegInf else PosInf)"
| "js_mul PosInf PosInf = PosInf"
| "js_mul NegInf NegInf = PosInf"
| "js_mul PosInf NegInf = NegInf"
| "js_mul NegInf PosInf = NegInf"

fun js_div :: "jsnum \<Rightarrow> jsnum \<Rightarrow> jsnum" where
  "js_div (Num a) (Num b) =
     (if b = 0 then (if a = 0 then NaN else if 0 < a then PosInf else NegInf)
      else to_double (a / b))"
| "js_div NaN y = NaN"
| "js_div x NaN = NaN"
| "js_div (Num a) PosInf = Num 0"
| "js_div (Num a) NegInf = Num 0"
| "js_div PosInf (Num b) = (if 0 \<le> b then PosInf else NegInf)"
| "js_div NegInf (Num b) = (if 0 \<le> b then NegInf else PosInf)"
| "js_div PosInf y = NaN"
| "js_div NegInf y = NaN"

text \<open>\<open>Math.round\<close>: the nearest integer, a tie going up.\<close>

fun Math_round :: "jsnum \<Rightarrow> jsnum" where
  "Math_round (Num a) = Num (of_int \<lfloor>a + 1 / 2\<rfloor>)"
| "Math_round x = x"

text \<open>The comparison \<open>x < y\<close> of numbers: false as soon as one side is NaN.\<close>

fun js_less :: "jsnum \<Rightarrow> jsnum \<Rightarrow> bool" where
  "js_less (Num a) (Num b) = (a < b)"
| "js_less NaN y = False"
| "js_less x NaN = False"
| "js_less x NegInf = False"
| "js_less PosInf y = False"
| "js_less NegInf y = True"
| "js_less x PosInf = True"

text \<open>
  \<open>Math.max\<close> of its arguments: it starts from \<open>-Infinity\<close>, returns NaN as soon as an
  argument is NaN, and keeps the largest argument otherwise.
\<close>

fun Math_max_from :: "jsnum \<Rightarrow> jsnum list \<Rightarrow> jsnum" where
  "Math_max_from highest [] = highest"
| "Math_max_from highest (x # xs) =
     (if x = NaN then NaN
      else Math_max_from (if js_less highest x then x else highest) xs)"

definition Math_max :: "jsnum list \<Rightarrow> jsnum" where
  "Math_max xs = Math_max_from NegInf xs"

subsection \<open>Facts about rounding\<close>

lemma pow2_less_iff: "(2::rat) powi a < 2 powi b \<longleftrightarrow> a < b"
  by (metis linorder_less_linear numeral_One numeral_less_iff
    order_less_imp_not_less power_int_strict_increasing
    semiring_norm(76))

lemma pow2_le_iff: "(2::rat) powi a \<le> 2 powi b \<longleftrightarrow> a \<le> b"
  using pow2_less_iff[of b a] by (simp add: not_less[symmetric])

lemma pow2_nat: "0 \<le> k \<Longrightarrow> (2::rat) powi k = of_int (2 ^ nat k)"
  by (simp add: power_int_def)

lemma pow2_add: "(2::rat) powi (a + b) = 2 powi a * 2 powi b"
  by (simp add: power_int_add)

lemma pow2_diff: "(2::rat) powi (a - b) = 2 powi a / 2 powi b"
  by (simp add: power_int_diff)

lemma bitlen_pow2_bounds:
  assumes "0 < p"
  shows "(2::rat) powi (bitlen p - 1) \<le> of_int p" "of_int p < (2::rat) powi (bitlen p)"
proof -
  have b: "1 \<le> bitlen p"
    using assms bitlen_eq_zero_iff[of p] bitlen_nonneg[of p] by linarith
  have "(2::int) ^ nat (bitlen p - 1) \<le> p" "p < 2 ^ nat (bitlen p)"
    using bitlen_bounds[OF assms] by simp_all
  then have "(of_int ((2::int) ^ nat (bitlen p - 1)) :: rat) \<le> of_int p"
    "(of_int p :: rat) < of_int (2 ^ nat (bitlen p))"
    by (simp_all only: of_int_le_iff of_int_less_iff)
  then show "(2::rat) powi (bitlen p - 1) \<le> of_int p" "of_int p < (2::rat) powi (bitlen p)"
    using b by (simp_all add: power_int_def)
qed

lemma ilog2_estimate:
  assumes "x \<noteq> 0" "quotient_of \<bar>x\<bar> = (p, q)"
  shows "2 powi (bitlen p - bitlen q - 1) \<le> \<bar>x\<bar>" "\<bar>x\<bar> < 2 powi (bitlen p - bitlen q + 1)"
proof -
  have q: "0 < q" using assms(2) by (rule quotient_of_denom_pos)
  have x: "\<bar>x\<bar> = of_int p / of_int q" using assms(2) by (rule quotient_of_div)
  have p: "0 < p"
  proof -
    have "0 < \<bar>x\<bar>" using assms(1) by simp
    then have "0 < (of_int p :: rat) / of_int q" using x by simp
    then show ?thesis using q by (simp add: zero_less_divide_iff)
  qed
  note P = bitlen_pow2_bounds[OF p] and Q = bitlen_pow2_bounds[OF q]
  have qpos: "(0::rat) < of_int q" using q by simp
  have "2 powi (bitlen p - bitlen q - 1) = (2::rat) powi (bitlen p - 1) / 2 powi (bitlen q)"
    using pow2_diff[of "bitlen p - 1" "bitlen q"] by (simp add: algebra_simps)
  also have "\<dots> \<le> of_int p / 2 powi (bitlen q)"
    using P(1) by (simp add: divide_right_mono)
  also have "\<dots> \<le> of_int p / of_int q"
    using Q(2) p qpos by (intro divide_left_mono) (simp_all add: less_imp_le)
  finally show "2 powi (bitlen p - bitlen q - 1) \<le> \<bar>x\<bar>" using x by simp
  have "of_int p / of_int q < (2::rat) powi (bitlen p) / of_int q"
    using P(2) qpos by (simp add: divide_strict_right_mono)
  also have "\<dots> \<le> 2 powi (bitlen p) / 2 powi (bitlen q - 1)"
    using Q(1) qpos by (intro divide_left_mono) (simp_all add: zero_less_mult_iff)
  also have "\<dots> = 2 powi (bitlen p - bitlen q + 1)"
    using pow2_diff[of "bitlen p" "bitlen q - 1"] by (simp add: algebra_simps)
  finally show "\<bar>x\<bar> < 2 powi (bitlen p - bitlen q + 1)" using x by simp
qed

lemma ilog2_bounds:
  assumes "x \<noteq> 0"
  shows "2 powi (ilog2 x) \<le> \<bar>x\<bar>" "\<bar>x\<bar> < 2 powi (ilog2 x + 1)"
proof -
  obtain p q where pq: "quotient_of \<bar>x\<bar> = (p, q)" by (cases "quotient_of \<bar>x\<bar>")
  note E = ilog2_estimate[OF assms pq]
  show "2 powi (ilog2 x) \<le> \<bar>x\<bar>"
    using E(1) by (simp add: ilog2_def pq Let_def)
  show "\<bar>x\<bar> < 2 powi (ilog2 x + 1)"
    using E(2) by (simp add: ilog2_def pq Let_def not_le)
qed

lemma ilog2_unique:
  assumes "2 powi e \<le> \<bar>x\<bar>" "\<bar>x\<bar> < 2 powi (e + 1)"
  shows "ilog2 x = e"
proof -
  have "(0::rat) < 2 powi e" by simp
  then have "0 < \<bar>x\<bar>" using assms(1) by linarith
  then have nz: "x \<noteq> 0" by simp
  note B = ilog2_bounds[OF nz]
  have "(2::rat) powi e < 2 powi (ilog2 x + 1)"
    using assms(1) B(2) by (rule le_less_trans)
  moreover have "(2::rat) powi (ilog2 x) < 2 powi (e + 1)"
    using B(1) assms(2) by (rule le_less_trans)
  ultimately show ?thesis
    unfolding pow2_less_iff by simp
qed

lemma round_even_of_int: "round_even (of_int n) = n"
  by (simp add: round_even_def)

lemma round_even_le: "r \<le> of_int n \<Longrightarrow> round_even r \<le> n"
proof -
  assume a: "r \<le> of_int n"
  show ?thesis
  proof (cases "r = of_int n")
    case True
    then show ?thesis by (simp add: round_even_of_int)
  next
    case False
    then have "r < of_int n" using a by simp
    then have "\<lfloor>r\<rfloor> < n" by (simp add: floor_less_iff)
    then show ?thesis by (simp add: round_even_def Let_def)
  qed
qed

lemma round_even_ge: "of_int n \<le> r \<Longrightarrow> n \<le> round_even r"
proof -
  assume "of_int n \<le> r"
  then have "n \<le> \<lfloor>r\<rfloor>" by (simp add: le_floor_iff)
  then show ?thesis by (simp add: round_even_def Let_def)
qed


lemma to_double_eqI:
  assumes "x \<noteq> 0"
    and "x = of_int m * 2 powi (max (ilog2 x) (- 1022) - 52)"
    and "max (ilog2 x) (- 1022) \<le> 1023"
    and "max (ilog2 x) (- 1022) = 1023 \<Longrightarrow> \<bar>m\<bar> < 2 ^ 53"
  shows "to_double x = Num x"
proof -
  let ?e = "max (ilog2 x) (- 1022)"
  have "x / 2 powi (?e - 52) = of_int m"
    using assms(2) by (metis nonzero_eq_divide_eq power_int_eq_0_iff zero_neq_numeral)
  then have r: "round_even (x / 2 powi (?e - 52)) = m"
    by (simp add: round_even_of_int)
  have c: "\<not> (1023 < ?e \<or> (?e = 1023 \<and> 2 ^ 53 \<le> \<bar>m\<bar>))"
    using assms(3,4) by auto
  show ?thesis
    unfolding to_double_def Let_def r using assms(1) c assms(2)[symmetric] by simp
qed

lemma to_double_exact:
  assumes x: "x = of_int n * 2 powi k" and n: "\<bar>n\<bar> \<le> 2 ^ 53" and k: "- 1074 \<le> k"
    and big: "\<bar>x\<bar> < 2 ^ 1024"
  shows "to_double x = Num x"
proof (cases "x = 0")
  case True
  then show ?thesis by (simp add: to_double_def)
next
  case False
  let ?e = "ilog2 x"
  let ?ee = "max ?e (- 1022)"
  note B = ilog2_bounds[OF False]
  have ax: "\<bar>x\<bar> = of_int \<bar>n\<bar> * 2 powi k"
    unfolding x by (simp add: abs_mult)
  have e_hi: "?e \<le> 1023"
  proof -
    have "(2::rat) powi ?e < 2 powi 1024"
      using B(1) big by simp
    then show ?thesis unfolding pow2_less_iff by simp
  qed
  have e_k: "?e \<le> k + 53"
  proof -
    have "(of_int \<bar>n\<bar> :: rat) \<le> of_int (2 ^ 53)"
      using n by (simp only: of_int_le_iff)
    then have "(of_int \<bar>n\<bar> :: rat) * 2 powi k \<le> 2 ^ 53 * 2 powi k"
      by (intro mult_right_mono) simp_all
    also have "\<dots> = 2 powi (k + 53)"
      using pow2_add[of k 53] by simp
    finally have "\<bar>x\<bar> \<le> 2 powi (k + 53)" using ax by simp
    with B(1) have "(2::rat) powi ?e \<le> 2 powi (k + 53)" by simp
    then show ?thesis unfolding pow2_le_iff .
  qed
  have ex: "\<exists>m. x = of_int m * 2 powi (?ee - 52)"
  proof (cases "?ee - 52 \<le> k")
    case True
    then have "(2::rat) powi k = of_int (2 ^ nat (k - (?ee - 52))) * 2 powi (?ee - 52)"
      using pow2_add[of "k - (?ee - 52)" "?ee - 52"] pow2_nat[of "k - (?ee - 52)"] by simp
    then have "x = of_int (n * 2 ^ nat (k - (?ee - 52))) * 2 powi (?ee - 52)"
      unfolding x by simp
    then show ?thesis by blast
  next
    case False
    then have ee: "?ee = k + 53" using e_k k by linarith
    then have e: "?e = k + 53" using k by linarith
    have "(2::rat) powi (k + 53) \<le> of_int \<bar>n\<bar> * 2 powi k"
      using B(1) ax e by simp
    then have "(2::rat) ^ 53 * 2 powi k \<le> of_int \<bar>n\<bar> * 2 powi k"
      using pow2_add[of k 53] by simp
    then have "(2::rat) ^ 53 \<le> of_int \<bar>n\<bar>"
      by (simp add: mult_le_cancel_right)
    then have "(of_int (2 ^ 53) :: rat) \<le> of_int \<bar>n\<bar>" by simp
    then have "2 ^ 53 \<le> \<bar>n\<bar>" by (simp only: of_int_le_iff)
    with n have "\<bar>n\<bar> = 2 ^ 53" by simp
    then have "even \<bar>n\<bar>" by simp
    then have "even n" by simp
    then have "n = 2 * (n div 2)" by simp
    then have "(of_int n :: rat) = of_int (n div 2) * 2" by (metis of_int_mult of_int_numeral mult.commute)
    moreover have "(2::rat) powi (k + 1) = 2 * 2 powi k"
      using pow2_add[of 1 k] by (simp add: add.commute)
    ultimately have "of_int n * (2::rat) powi k = of_int (n div 2) * 2 powi (k + 1)"
      by simp
    moreover have "?ee - 52 = k + 1" using ee by simp
    ultimately have "x = of_int (n div 2) * 2 powi (?ee - 52)"
      using x by (simp only:)
    then show ?thesis by blast
  qed
  then obtain m where m: "x = of_int m * 2 powi (?ee - 52)" by blast
  have m_hi: "\<bar>m\<bar> < 2 ^ 53" if "?ee = 1023"
  proof -
    have "\<bar>x\<bar> = of_int \<bar>m\<bar> * 2 powi 971"
      using m that by (simp add: abs_mult)
    then have "of_int \<bar>m\<bar> * (2::rat) powi 971 < 2 ^ 53 * 2 powi 971"
      using big by simp
    then have "(of_int \<bar>m\<bar> :: rat) < 2 ^ 53"
      by (simp only: mult_less_cancel_right) simp
    then have "(of_int \<bar>m\<bar> :: rat) < of_int (2 ^ 53)" by simp
    then show ?thesis by (simp only: of_int_less_iff)
  qed
  show ?thesis
    using False m _ m_hi
  proof (rule to_double_eqI)
    show "?ee \<le> 1023" using e_hi by simp
  qed
qed

lemma to_double_of_int:
  assumes "\<bar>n\<bar> \<le> 2 ^ 53"
  shows "to_double (of_int n) = Num (of_int n)"
proof (rule to_double_exact[where n = n and k = 0])
  have "(of_int \<bar>n\<bar> :: rat) \<le> of_int (2 ^ 53)"
    using assms by (simp only: of_int_le_iff)
  then show "\<bar>of_int n :: rat\<bar> < 2 ^ 1024" by simp
qed (use assms in simp_all)

lemma to_double_range:
  assumes "0 \<le> x" "x \<le> of_int c" "c < 2 ^ 53"
  shows "\<exists>y. to_double x = Num y \<and> 0 \<le> y \<and> y \<le> of_int c"
proof (cases "x = 0")
  case True
  then show ?thesis using assms by (simp add: to_double_def)
next
  case False
  let ?e = "ilog2 x"
  let ?ee = "max ?e (- 1022)"
  let ?u = "(2::rat) powi (?ee - 52)"
  let ?n = "round_even (x / ?u)"
  note B = ilog2_bounds[OF False]
  have "(of_int c :: rat) < of_int (2 ^ 53)"
    using assms(3) by (simp only: of_int_less_iff)
  then have "\<bar>x\<bar> < 2 powi 53" using assms(1,2) by simp
  with B(1) have "(2::rat) powi ?e < 2 powi 53" by simp
  then have e: "?e \<le> 52" unfolding pow2_less_iff by simp
  then have ee: "?ee \<le> 52" by simp
  have u: "?u * of_int (2 ^ nat (52 - ?ee)) = 1"
    using pow2_add[of "?ee - 52" "52 - ?ee"] pow2_nat[of "52 - ?ee"] ee by simp
  have upos: "0 < ?u" by simp
  have cu: "of_int c / ?u = of_int (c * 2 ^ nat (52 - ?ee))"
    using u upos by (simp add: field_simps)
  have "x / ?u \<le> of_int c / ?u"
    using assms(2) upos by (simp add: divide_right_mono)
  then have n_hi: "?n \<le> c * 2 ^ nat (52 - ?ee)"
    unfolding cu by (rule round_even_le)
  have "of_int 0 \<le> x / ?u" using assms(1) upos by simp
  then have n_lo: "0 \<le> ?n" by (rule round_even_ge)
  have y_lo: "0 \<le> of_int ?n * ?u" using n_lo by simp
  have "of_int ?n * ?u \<le> of_int (c * 2 ^ nat (52 - ?ee)) * ?u"
    using n_hi upos by (intro mult_right_mono) (simp_all only: of_int_le_iff less_imp_le)
  also have "\<dots> = of_int c"
    using u by (simp add: algebra_simps)
  finally have y_hi: "of_int ?n * ?u \<le> of_int c" .
  have "?ee < 1023" using ee by linarith
  then have c: "\<not> (1023 < ?ee \<or> (?ee = 1023 \<and> 2 ^ 53 \<le> \<bar>?n\<bar>))"
    by linarith
  have "to_double x = Num (of_int ?n * ?u)"
    by (simp only: to_double_def Let_def False c if_False)
  then show ?thesis using y_lo y_hi by blast
qed

section \<open>Activity rows and the profile page\<close>

text \<open>
  A row of \<open>activity_logs\<close> as the pages receive it.  \<open>occurred_at\<close> holds the time value
  that \<open>new Date(l.occurred_at).getTime()\<close> yields for the backend's timestamp; \<open>minutes\<close>
  is \<open>None\<close> for \<open>null\<close>; \<open>category\<close> is the string the row carries, which the type
  \<open>Category\<close> promises to be one of three but nothing checks at run time.  The field
  \<open>id\<close> is called \<open>row_id\<close> here.
\<close>

record profile =
  username :: string
  display_name :: string

record ActivityRow =
  row_id :: string
  user_id :: string
  category :: string
  title :: "string option"
  minutes :: "jsnum option"
  occurred_at :: int
  profiles :: "profile option"

text \<open>The object \<open>{ study: 0, skill: 0, exercise: 0, all: 0 }\<close> of the weekly totals.\<close>

record totals =
  study :: jsnum
  skill :: jsnum
  exercise :: jsnum
  all :: jsnum

definition zero_totals :: totals where
  "zero_totals = \<lparr>study = Num 0, skill = Num 0, exercise = Num 0, all = Num 0\<rparr>"

text \<open>\<open>typeof l.minutes === "number" ? l.minutes : 0\<close>\<close>

definition minutes_or_zero :: "ActivityRow \<Rightarrow> jsnum" where
  "minutes_or_zero l = (case minutes l of Some m \<Rightarrow> m | None \<Rightarrow> Num 0)"

text \<open>
  \<open>totals[l.category] += m\<close>.  A category that names none of the object's fields makes
  the assignment create (or update) a property of that other name, whose value is NaN;
  the four fields stay as they are, and nothing is thrown.  The category \<open>all\<close> names the
  fourth field.
\<close>

definition add_category :: "string \<Rightarrow> jsnum \<Rightarrow> 'a totals_scheme \<Rightarrow> 'a totals_scheme" where
  "add_category c m t =
     (if c = ''study'' then t\<lparr>study := js_add (study t) m\<rparr>
      else if c = ''skill'' then t\<lparr>skill := js_add (skill t) m\<rparr>
      else if c = ''exercise'' then t\<lparr>exercise := js_add (exercise t) m\<rparr>
      else if c = ''all'' then t\<lparr>all := js_add (all t) m\<rparr>
      else t)"

text \<open>The two updates one counted row makes.\<close>

definition add_row :: "'a totals_scheme \<Rightarrow> ActivityRow \<Rightarrow> 'a totals_scheme" where
  "add_row t l =
     (let m = minutes_or_zero l;
          t = add_category (category l) m t
      in t\<lparr>all := js_add (all t) m\<rparr>)"

text \<open>\<open>weeklyTotals\<close> of the profile page: rows before the start of the week are skipped.\<close>

definition weeklyTotals :: "int \<Rightarrow> ActivityRow list \<Rightarrow> totals" where
  "weeklyTotals weekStart logs =
     foldl (\<lambda>t l. if occurred_at l < weekStart then t else add_row t l) zero_totals logs"

text \<open>Rows for the examples below: only the owner, category, minutes and instant vary.\<close>

definition example_row :: "string \<Rightarrow> string \<Rightarrow> jsnum option \<Rightarrow> int \<Rightarrow> ActivityRow" where
  "example_row uid c m t =
     \<lparr>row_id = ''row'', user_id = uid, category = c, title = None, minutes = m,
      occurred_at = t, profiles = None\<rparr>"

subsection \<open>The streak\<close>

text \<open>
  A \<open>Set<string>\<close> is the list of its members in insertion order, without repetition.
\<close>

definition Set_add :: "string \<Rightarrow> string list \<Rightarrow> string list" where
  "Set_add k s = (if k \<in> set s then s else s @ [k])"

definition Set_has :: "string list \<Rightarrow> string \<Rightarrow> bool" where
  "Set_has s k \<longleftrightarrow> k \<in> set s"

text \<open>\<open>for (const l of logs) days.add(dateKeyLocal(new Date(l.occurred_at)))\<close>\<close>

definition days_of :: "zone \<Rightarrow> ActivityRow list \<Rightarrow> string list" where
  "days_of z logs = fold (\<lambda>l days. Set_add (dateKeyLocal z (occurred_at l)) days) logs []"

text \<open>
  The loop \<open>while (days.has(dateKeyLocal(cursor))) { s++; cursor.setDate(cursor.getDate() - 1) }\<close>,
  from the cursor and the count it starts with; it is written in both pages.  Whether it
  ends depends on the zone: where \<open>setDate\<close> cannot leave a day (a zone that skips the day
  before) the loop would run forever, and its value here is \<open>None\<close>.  \<open>streak_loop_returns\<close>
  below shows that it ends in every zone that keeps days.
\<close>

partial_function (option) streak_loop :: "zone \<Rightarrow> string list \<Rightarrow> int \<Rightarrow> nat \<Rightarrow> nat option" where
  "streak_loop z days cursor s =
     (if Set_has days (dateKeyLocal z cursor)
      then streak_loop z days (setDate z cursor (getDate z cursor - 1)) (s + 1)
      else Some s)"


text \<open>The active days not after day \<open>d\<close>: their number bounds the turns of the loop.\<close>

definition days_up_to :: "string list \<Rightarrow> int \<Rightarrow> int set" where
  "days_up_to days d = {e. e \<le> d \<and> day_key e \<in> set days}"

lemma days_up_to_finite: "finite (days_up_to days d)"
proof -
  have "inj_on day_key (days_up_to days d)"
    by (rule inj_onI) (simp add: day_key_eq_iff)
  moreover have "day_key ` days_up_to days d \<subseteq> set days"
    by (auto simp: days_up_to_def)
  ultimately show ?thesis
    by (meson List.finite_set finite_subset finite_imageD)
qed


lemma days_up_to_step:
  assumes "day_key d \<in> set days"
  shows "days_up_to days (d - 1) \<subset> days_up_to days d"
  using assms by (auto simp: days_up_to_def)

lemma streak_loop_unfold:
  assumes "keeps_day z"
  shows "streak_loop z days cursor s =
     (if day_key (local_day z cursor) \<in> set days
      then streak_loop z days (setDate z cursor (getDate z cursor - 1)) (s + 1)
      else Some s)"
  by (subst streak_loop.simps) (simp add: Set_has_def dateKeyLocal_day_key)



lemma streak_loop_set_cong:
  assumes "keeps_day z" "set days = set days'"
  shows "streak_loop z days cursor s = streak_loop z days' cursor s"
proof (induction "card (days_up_to days (local_day z cursor))" arbitrary: cursor s rule: less_induct)
  case less
  show ?case
  proof (cases "day_key (local_day z cursor) \<in> set days")
    case True
    let ?c = "setDate z cursor (getDate z cursor - 1)"
    have ld: "local_day z ?c = local_day z cursor - 1"
      using assms(1) by (rule local_day_setDate_prev)
    have lt: "card (days_up_to days (local_day z ?c)) < card (days_up_to days (local_day z cursor))"
      unfolding ld using True by (intro psubset_card_mono days_up_to_finite days_up_to_step)
    show ?thesis
      using True less[OF lt, of "s + 1"] assms(2)
      by (subst (1 2) streak_loop_unfold[OF assms(1)]) simp
  next
    case False
    then show ?thesis
      using assms(2) by (subst (1 2) streak_loop_unfold[OF assms(1)]) simp
  qed
qed

lemma set_fold_Set_add:
  "set (fold (\<lambda>l days. Set_add (f l) days) logs acc) = set acc \<union> f ` set logs"
  by (induction logs arbitrary: acc) (auto simp: Set_add_def)

lemma set_days_of: "set (days_of z logs) = (\<lambda>l. dateKeyLocal z (occurred_at l)) ` set logs"
  by (simp add: days_of_def set_fold_Set_add)

lemma set_days_of_day_key:
  "set (days_of z logs) = day_key ` (\<lambda>l. local_day z (occurred_at l)) ` set logs"
  by (simp add: set_days_of dateKeyLocal_day_key image_image)

lemma day_key_in_days_of:
  "day_key d \<in> set (days_of z logs) \<longleftrightarrow> d \<in> (\<lambda>l. local_day z (occurred_at l)) ` set logs"
  unfolding set_days_of_day_key by (auto simp: day_key_eq_iff)










section \<open>Objects used as dictionaries\<close>

text \<open>
  The activity page keeps its per-user data in plain objects (\<open>Record<string, ...>\<close>, created
  as \<open>{}\<close>) indexed by the user id.  Such an object is modelled by the list of its own
  properties in the order of their creation.  Two things set it apart from a map:
  \<^item> \<open>Object.keys\<close> and \<open>Object.values\<close> enumerate the own properties whose name is an array
    index (a canonical decimal numeral below \<open>2^32 - 1\<close>) first, in ascending numeric order,
    and the other properties after them, in the order of creation;
  \<^item> reading \<open>obj[k]\<close> finds the properties that every object inherits from
    \<open>Object.prototype\<close> when the object has no own property \<open>k\<close>.
\<close>

definition is_array_index :: "string \<Rightarrow> bool" where
  "is_array_index k \<longleftrightarrow> digits_of_nat (nat_of_digits k) = k \<and> nat_of_digits k < 4294967295"

definition object_prototype_names :: "string list" where
  "object_prototype_names =
     [''constructor'', ''hasOwnProperty'', ''isPrototypeOf'', ''propertyIsEnumerable'',
      ''toLocaleString'', ''toString'', ''valueOf'', ''__proto__'',
      ''__defineGetter__'', ''__defineSetter__'', ''__lookupGetter__'', ''__lookupSetter__'']"

datatype 'v property = Own 'v | Inherited | Undefined

definition get_property :: "(string \<times> 'v) list \<Rightarrow> string \<Rightarrow> 'v property" where
  "get_property obj k =
     (case map_of obj k of
        Some v \<Rightarrow> Own v
      | None \<Rightarrow> if k \<in> set object_prototype_names then Inherited else Undefined)"

text \<open>
  \<open>obj[k] = v\<close> for a key that is an own property or is not inherited (the pages assign
  under no other key): the property keeps its place when it exists and is created last
  otherwise.
\<close>

definition set_property :: "(string \<times> 'v) list \<Rightarrow> string \<Rightarrow> 'v \<Rightarrow> (string \<times> 'v) list" where
  "set_property obj k v =
     (if k \<in> fst ` set obj then map (\<lambda>(k', v'). if k' = k then (k', v) else (k', v')) obj
      else obj @ [(k, v)])"

definition own_properties :: "(string \<times> 'v) list \<Rightarrow> (string \<times> 'v) list" where
  "own_properties obj =
     sort_key (\<lambda>(k, v). nat_of_digits k) (filter (\<lambda>(k, v). is_array_index k) obj)
     @ filter (\<lambda>(k, v). \<not> is_array_index k) obj"

definition Object_keys :: "(string \<times> 'v) list \<Rightarrow> string list" where
  "Object_keys obj = map fst (own_properties obj)"

definition Object_values :: "(string \<times> 'v) list \<Rightarrow> 'v list" where
  "Object_values obj = map snd (own_properties obj)"

subsection \<open>Assignments that reach a built-in object\<close>

text \<open>
  Where \<open>obj[k]\<close> is inherited, it is a built-in object of the realm: the function \<open>Object\<close>
  for \<open>constructor\<close>, the object \<open>Object.prototype\<close> for \<open>__proto__\<close>, and the method of that
  name otherwise.  The page's next statement, \<open>obj[k][c] += m\<close>, then reads and assigns a
  property of that built-in object.  The module is strict code, so an assignment that
  cannot be made throws a \<open>TypeError\<close>.  What follows is the standard's behaviour in a realm
  that nothing but the run itself has written to.  The run's own writes are kept as the
  list of the pairs \<open>(k, c)\<close> for which property \<open>c\<close> of the built-in object \<open>{}[k]\<close> has been
  assigned; the value assigned is always a primitive (a string or NaN), never a function.
\<close>

datatype js_error = TypeError

text \<open>
  The properties of a built-in function that cannot be assigned: \<open>name\<close> and \<open>length\<close>, and
  \<open>prototype\<close> of \<open>Object\<close>, are not writable; reading \<open>caller\<close> or \<open>arguments\<close> throws.
\<close>

definition read_only :: "string \<Rightarrow> string \<Rightarrow> bool" where
  "read_only k c \<longleftrightarrow>
     c \<in> {''name'', ''length'', ''caller'', ''arguments''} \<or> (k = ''constructor'' \<and> c = ''prototype'')"

text \<open>
  \<open>inherited_value written c\<close>: the built-in object that a read of property \<open>c\<close> finds on
  \<open>Object.prototype\<close>, when it finds one (the name of the built-in object is \<open>c\<close> itself).  It
  finds none when the name is not one of \<open>Object.prototype\<close>'s, when the run has replaced
  the property by a primitive, and for \<open>__proto__\<close>, whose getter returns the prototype of
  the object read.
\<close>

definition inherited_value :: "(string \<times> string) list \<Rightarrow> string \<Rightarrow> string option" where
  "inherited_value written c =
     (if c \<in> set object_prototype_names \<and> c \<noteq> ''__proto__'' \<and> (''__proto__'', c) \<notin> set written
      then Some c else None)"

text \<open>
  \<open>+=\<close> converts the value read to a primitive: \<open>valueOf\<close> of a built-in object returns the
  object, so the conversion ends with its \<open>toString\<close>, and throws when the run has replaced
  that by a primitive.
\<close>

definition unconvertible :: "(string \<times> string) list \<Rightarrow> string option \<Rightarrow> bool" where
  "unconvertible written v = (case v of Some j \<Rightarrow> (j, ''toString'') \<in> set written | None \<Rightarrow> False)"

text \<open>
  \<open>builtin_read written k c\<close>: the built-in object, if it is one of those the run can write
  to, that \<open>{}[k][c]\<close> reads.  An own property that the run has written is a primitive; a
  function finds \<open>constructor\<close> and \<open>toString\<close> on \<open>Function.prototype\<close>, which the run cannot
  reach; every other read goes on to \<open>Object.prototype\<close>.
\<close>

definition builtin_read :: "(string \<times> string) list \<Rightarrow> string \<Rightarrow> string \<Rightarrow> string option" where
  "builtin_read written k c =
     (if (k, c) \<in> set written then None
      else if k \<noteq> ''__proto__'' \<and> c \<in> {''constructor'', ''toString''} then None
      else inherited_value written c)"

text \<open>
  \<open>{}[k][c] += m; {}[k].all += m\<close> for an inherited \<open>k\<close>.  When the run has replaced
  \<open>Object.prototype[k]\<close> by a string, the assignments are to a property of a string, and throw.
  An assignment to \<open>__proto__\<close> calls the setter, which ignores a primitive.
\<close>

definition assign_builtin ::
    "(string \<times> string) list \<Rightarrow> string \<Rightarrow> string \<Rightarrow> js_error + (string \<times> string) list" where
  "assign_builtin written k c =
     (if (''__proto__'', k) \<in> set written then Inl TypeError
      else if k \<noteq> ''__proto__'' \<and> read_only k c then Inl TypeError
      else if unconvertible written (builtin_read written k c) then Inl TypeError
      else Inr ((k, ''all'') # (if c = ''__proto__'' then written else (k, c) # written)))"

section \<open>The activity page\<close>

definition weeklyLogs :: "int \<Rightarrow> ActivityRow list \<Rightarrow> ActivityRow list" where
  "weeklyLogs weekStart logs = filter (\<lambda>l. occurred_at l \<ge> weekStart) logs"

text \<open>
  A summary is the object that \<open>totalsByUser\<close> creates for a user: the four totals and the
  three strings.  \<open>+=\<close> on a string field appends the number's text, which is kept as it is
  built; a category that names none of the seven fields creates a further property, and
  \<open>u_others\<close> lists those names in the order of their creation.
\<close>

datatype js_text = Text string | TextPlusNumber js_text jsnum

record summary = totals +
  u_user_id :: js_text
  u_display_name :: js_text
  u_username :: js_text
  u_others :: "string list"

definition seed_summary :: "ActivityRow \<Rightarrow> summary" where
  "seed_summary l =
     \<lparr>study = Num 0, skill = Num 0, exercise = Num 0, all = Num 0,
      u_user_id = Text (user_id l),
      u_display_name = Text (case profiles l of Some p \<Rightarrow> display_name p | None \<Rightarrow> ''Unknown''),
      u_username = Text (case profiles l of Some p \<Rightarrow> username p | None \<Rightarrow> ''unknown''),
      u_others = []\<rparr>"

text \<open>\<open>map[uid][l.category] += m\<close> on a summary.\<close>

definition add_summary_category :: "string \<Rightarrow> jsnum \<Rightarrow> summary \<Rightarrow> summary" where
  "add_summary_category c m u =
     (if c = ''user_id'' then u\<lparr>u_user_id := TextPlusNumber (u_user_id u) m\<rparr>
      else if c = ''display_name'' then u\<lparr>u_display_name := TextPlusNumber (u_display_name u) m\<rparr>
      else if c = ''username'' then u\<lparr>u_username := TextPlusNumber (u_username u) m\<rparr>
      else if c \<in> {''study'', ''skill'', ''exercise'', ''all''} then add_category c m u
      else if c = ''__proto__'' then u
      else u\<lparr>u_others := Set_add c (u_others u)\<rparr>)"

definition add_summary_row :: "summary \<Rightarrow> ActivityRow \<Rightarrow> summary" where
  "add_summary_row u l =
     (let m = minutes_or_zero l;
          u = add_summary_category (category l) m u
      in u\<lparr>all := js_add (all u) m\<rparr>)"

text \<open>
  The built-in object that \<open>u[c]\<close> reads on a summary \<open>u\<close>, if it reads one: an own property
  is a primitive, \<open>__proto__\<close> is \<open>Object.prototype\<close>.
\<close>

definition summary_read :: "(string \<times> string) list \<Rightarrow> summary \<Rightarrow> string \<Rightarrow> string option" where
  "summary_read written u c =
     (if c \<in> {''user_id'', ''display_name'', ''username'', ''study'', ''skill'', ''exercise'', ''all''}
         \<or> c \<in> set (u_others u) then None
      else if c = ''__proto__'' then Some ''__proto__''
      else inherited_value written c)"

text \<open>
  One turn of the loop of \<open>totalsByUser\<close>, on the object \<open>map\<close> and the writes made to
  built-in objects so far.
\<close>

definition totalsByUser_step ::
    "js_error + (string \<times> summary) list \<times> (string \<times> string) list \<Rightarrow> ActivityRow
      \<Rightarrow> js_error + (string \<times> summary) list \<times> (string \<times> string) list" where
  "totalsByUser_step acc l =
     (case acc of
        Inl e \<Rightarrow> Inl e
      | Inr (map_u, written) \<Rightarrow>
          let uid = user_id l;
              u = (case get_property map_u uid of
                     Undefined \<Rightarrow> Own (seed_summary l)
                   | p \<Rightarrow> p)
          in case u of
               Own u \<Rightarrow>
                 if unconvertible written (summary_read written u (category l)) then Inl TypeError
                 else Inr (set_property map_u uid (add_summary_row u l), written)
             | _ \<Rightarrow>
                 (case assign_builtin written uid (category l) of
                    Inl e \<Rightarrow> Inl e
                  | Inr written' \<Rightarrow> Inr (map_u, written')))"

text \<open>
  \<open>totalsByUser\<close>: the loop over the rows of the week, then \<open>Object.values(map)\<close>, which is a
  call of a property of \<open>Object\<close> and throws when the run has replaced it.
\<close>

definition totalsByUser :: "ActivityRow list \<Rightarrow> js_error + summary list" where
  "totalsByUser weekly =
     (case foldl totalsByUser_step (Inr ([], [])) weekly of
        Inl e \<Rightarrow> Inl e
      | Inr (map_u, written) \<Rightarrow>
          if (''constructor'', ''values'') \<in> set written then Inl TypeError
          else Inr (Object_values map_u))"

section \<open>The weekly totals\<close>

lemma foldl_skip:
  "foldl (\<lambda>t l. if P l then t else f t l) a xs = foldl f a (filter (\<lambda>l. \<not> P l) xs)"
  by (induction xs arbitrary: a) simp_all

lemma weeklyTotals_filter:
  "weeklyTotals weekStart logs = foldl add_row zero_totals [l\<leftarrow>logs. weekStart \<le> occurred_at l]"
  unfolding weeklyTotals_def foldl_skip by (simp add: not_less)

lemma js_add_ints:
  assumes "\<bar>a + b\<bar> \<le> 2 ^ 53"
  shows "js_add (Num (of_int a)) (Num (of_int b)) = Num (of_int (a + b))"
  using to_double_of_int[OF assms] by simp

lemma to_double_0: "to_double 0 = Num 0"
  by (simp add: to_double_def)

lemma to_double_numeral:
  "numeral n \<le> (2::int) ^ 53 \<Longrightarrow> to_double (numeral n) = Num (numeral n)"
  using to_double_of_int[of "numeral n"] by simp

text \<open>
  Claim C6.  The weekly totals of the profile page count a row exactly when its instant is
  at or after the start of the week: they are the totals of the rows with
  \<open>weekStart \<le> occurred_at\<close>, whatever lies above (there is no upper bound), and these are also
  the rows \<open>weeklyLogs\<close> passes on in the activity page.  A row at exactly the start of the week
  is counted; a row one millisecond before it is not.
\<close>

theorem weekly_window:
  "weeklyTotals weekStart logs = foldl add_row zero_totals [l\<leftarrow>logs. weekStart \<le> occurred_at l]
   \<and> weeklyLogs weekStart logs = [l\<leftarrow>logs. weekStart \<le> occurred_at l]
   \<and> weeklyTotals (occurred_at l) [l] = add_row zero_totals l
   \<and> weeklyTotals (occurred_at l + 1) [l] = zero_totals"
  by (simp add: weeklyTotals_filter weeklyLogs_def)

theorem weekly_window_witness:
  "weeklyTotals 100 [example_row ''u1'' ''study'' (Some (Num 30)) 100,
                     example_row ''u1'' ''skill'' (Some (Num 30)) 99,
                     example_row ''u1'' ''exercise'' (Some (Num 30)) 2000000000000]
     = \<lparr>study = Num 30, skill = Num 0, exercise = Num 30, all = Num 60\<rparr>"
  using weekly_window[of 100 "[example_row ''u1'' ''study'' (Some (Num 30)) 100,
                     example_row ''u1'' ''skill'' (Some (Num 30)) 99,
                     example_row ''u1'' ''exercise'' (Some (Num 30)) 2000000000000]"
                     "example_row ''u1'' ''study'' (Some (Num 30)) 100"]
  by (simp add: example_row_def add_row_def add_category_def minutes_or_zero_def zero_totals_def
      to_double_0 to_double_numeral Let_def)

section \<open>The summaries, user by user\<close>

text \<open>
  What the specification says of the summaries, in its words: the owners in the order of
  their first appearance, the rows of one owner, and the summary of one owner, seeded from
  the first of the owner's rows and built from all of them.
\<close>

definition owners :: "ActivityRow list \<Rightarrow> string list" where
  "owners logs = rev (remdups (rev (map user_id logs)))"

definition rows_of :: "string \<Rightarrow> ActivityRow list \<Rightarrow> ActivityRow list" where
  "rows_of k logs = filter (\<lambda>l. user_id l = k) logs"

definition owner_summary :: "string \<Rightarrow> ActivityRow list \<Rightarrow> summary" where
  "owner_summary k logs = foldl add_summary_row (seed_summary (hd (rows_of k logs))) (rows_of k logs)"

text \<open>The order in which \<open>Object.keys\<close> and \<open>Object.values\<close> go through keys created in the order \<open>ks\<close>.\<close>

definition key_order :: "string list \<Rightarrow> string list" where
  "key_order ks = sort_key nat_of_digits (filter is_array_index ks) @ filter (\<lambda>k. \<not> is_array_index k) ks"

lemma owners_snoc:
  "owners (logs @ [l]) = (if user_id l \<in> set (owners logs) then owners logs else owners logs @ [user_id l])"
  by (simp add: owners_def)

lemma set_owners: "set (owners logs) = user_id ` set logs"
  by (simp add: owners_def)

lemma distinct_owners: "distinct (owners logs)"
  by (simp add: owners_def)

lemma owner_summary_snoc_same:
  assumes "user_id l \<in> user_id ` set logs"
  shows "owner_summary (user_id l) (logs @ [l]) = add_summary_row (owner_summary (user_id l) logs) l"
proof -
  have "rows_of (user_id l) logs \<noteq> []"
    using assms by (auto simp add: rows_of_def filter_empty_conv)
  then show ?thesis
    by (simp add: owner_summary_def rows_of_def)
qed

lemma owner_summary_snoc_new:
  assumes "user_id l \<notin> user_id ` set logs"
  shows "owner_summary (user_id l) (logs @ [l]) = add_summary_row (seed_summary l) l"
proof -
  have "rows_of (user_id l) logs = []"
    using assms by (auto simp add: rows_of_def filter_empty_conv image_iff)
  then show ?thesis
    by (simp add: owner_summary_def rows_of_def)
qed

lemma owner_summary_snoc_other:
  "k \<noteq> user_id l \<Longrightarrow> owner_summary k (logs @ [l]) = owner_summary k logs"
  by (auto simp add: owner_summary_def rows_of_def)

lemma map_of_keyed:
  "map_of (map (\<lambda>k. (k, f k)) ks) k = (if k \<in> set ks then Some (f k) else None)"
  by (induction ks) auto

lemma get_property_keyed:
  assumes "k \<notin> set object_prototype_names"
  shows "get_property (map (\<lambda>k. (k, f k)) ks) k = (if k \<in> set ks then Own (f k) else Undefined)"
  using assms by (simp add: get_property_def map_of_keyed)

lemma set_property_keyed_old:
  assumes "k \<in> set ks"
  shows "set_property (map (\<lambda>k. (k, f k)) ks) k v = map (\<lambda>k'. (k', (f(k := v)) k')) ks"
  using assms by (auto simp add: set_property_def image_iff)

lemma set_property_keyed_new:
  assumes "k \<notin> set ks"
  shows "set_property (map (\<lambda>k. (k, f k)) ks) k v = map (\<lambda>k'. (k', (f(k := v)) k')) (ks @ [k])"
  using assms by (auto simp add: set_property_def image_iff)

lemma unconvertible_nothing_written: "unconvertible [] v = False"
  by (simp add: unconvertible_def split: option.splits)

lemma totalsByUser_step_old:
  assumes "user_id l \<notin> set object_prototype_names" "user_id l \<in> set ks"
  shows "totalsByUser_step (Inr (map (\<lambda>k. (k, f k)) ks, [])) l
       = Inr (map (\<lambda>k'. (k', (f(user_id l := add_summary_row (f (user_id l)) l)) k')) ks, [])"
proof -
  have g: "get_property (map (\<lambda>k. (k, f k)) ks) (user_id l) = Own (f (user_id l))"
    using assms by (simp add: get_property_keyed)
  show ?thesis
    by (simp add: totalsByUser_step_def Let_def g unconvertible_nothing_written set_property_keyed_old[OF assms(2)])
qed

lemma totalsByUser_step_new:
  assumes "user_id l \<notin> set object_prototype_names" "user_id l \<notin> set ks"
  shows "totalsByUser_step (Inr (map (\<lambda>k. (k, f k)) ks, [])) l
       = Inr (map (\<lambda>k'. (k', (f(user_id l := add_summary_row (seed_summary l) l)) k')) (ks @ [user_id l]), [])"
proof -
  have g: "get_property (map (\<lambda>k. (k, f k)) ks) (user_id l) = Undefined"
    using assms by (simp add: get_property_keyed)
  show ?thesis
    by (simp add: totalsByUser_step_def Let_def g unconvertible_nothing_written set_property_keyed_new[OF assms(2)] del: map_append)
qed

lemma totalsByUser_loop:
  assumes "\<forall>r\<in>set weekly. user_id r \<notin> set object_prototype_names"
  shows "foldl totalsByUser_step (Inr ([], [])) weekly
       = Inr (map (\<lambda>k. (k, owner_summary k weekly)) (owners weekly), [])"
  using assms
proof (induction weekly rule: rev_induct)
  case Nil
  show ?case by (simp add: owners_def)
next
  case (snoc l weekly)
  let ?k = "user_id l"
  let ?f = "\<lambda>k. owner_summary k weekly"
  have ih: "foldl totalsByUser_step (Inr ([], [])) weekly
       = Inr (map (\<lambda>k. (k, ?f k)) (owners weekly), [])"
    using snoc by simp
  have k: "?k \<notin> set object_prototype_names"
    using snoc.prems by simp
  have f: "foldl totalsByUser_step (Inr ([], [])) (weekly @ [l])
      = totalsByUser_step (Inr (map (\<lambda>k. (k, ?f k)) (owners weekly), [])) l"
    unfolding foldl_append ih by simp
  show ?case
  proof (cases "?k \<in> set (owners weekly)")
    case True
    then have in_logs: "?k \<in> user_id ` set weekly" by (simp add: set_owners)
    have o: "owners (weekly @ [l]) = owners weekly"
      using True by (simp add: owners_snoc)
    have "(?f(?k := add_summary_row (?f ?k) l)) k' = owner_summary k' (weekly @ [l])" for k'
      by (cases "k' = ?k") (simp_all add: owner_summary_snoc_same[OF in_logs] owner_summary_snoc_other)
    then show ?thesis
      unfolding f totalsByUser_step_old[OF k True] o by simp
  next
    case False
    then have out: "?k \<notin> user_id ` set weekly" by (simp add: set_owners)
    have o: "owners (weekly @ [l]) = owners weekly @ [?k]"
      using False by (simp add: owners_snoc)
    have "(?f(?k := add_summary_row (seed_summary l) l)) k' = owner_summary k' (weekly @ [l])" for k'
      by (cases "k' = ?k") (simp_all add: owner_summary_snoc_new[OF out] owner_summary_snoc_other)
    then show ?thesis
      unfolding f totalsByUser_step_new[OF k False] o by simp
  qed
qed

lemma insort_key_keyed:
  "insort_key (\<lambda>(k, v). g k) (a, f a) (map (\<lambda>k. (k, f k)) xs) = map (\<lambda>k. (k, f k)) (insort_key g a xs)"
  by (induction xs) simp_all

lemma sort_key_keyed:
  "sort_key (\<lambda>(k, v). g k) (map (\<lambda>k. (k, f k)) xs) = map (\<lambda>k. (k, f k)) (sort_key g xs)"
  by (induction xs) (simp_all add: insort_key_keyed)

lemma filter_keyed:
  "filter (\<lambda>(k, v). P k) (map (\<lambda>k. (k, f k)) xs) = map (\<lambda>k. (k, f k)) (filter P xs)"
  by (induction xs) simp_all

lemma own_properties_keyed:
  "own_properties (map (\<lambda>k. (k, f k)) ks) = map (\<lambda>k. (k, f k)) (key_order ks)"
  by (simp add: own_properties_def key_order_def sort_key_keyed filter_keyed)

lemma Object_values_keyed: "Object_values (map (\<lambda>k. (k, f k)) ks) = map f (key_order ks)"
  by (simp add: Object_values_def own_properties_keyed comp_def)

lemma Object_keys_keyed: "Object_keys (map (\<lambda>k. (k, f k)) ks) = key_order ks"
  by (simp add: Object_keys_def own_properties_keyed comp_def)

lemma totalsByUser_owners:
  assumes "\<forall>r\<in>set weekly. user_id r \<notin> set object_prototype_names"
  shows "totalsByUser weekly = Inr (map (\<lambda>k. owner_summary k weekly) (key_order (owners weekly)))"
  by (simp add: totalsByUser_def totalsByUser_loop[OF assms] Object_values_keyed)

lemma set_key_order: "set (key_order ks) = set ks"
  by (auto simp add: key_order_def)

lemma distinct_key_order: "distinct ks \<Longrightarrow> distinct (key_order ks)"
  by (auto simp add: key_order_def)

lemma length_key_order: "length (key_order ks) = length ks"
  by (simp add: key_order_def sum_length_filter_compl)

lemma map_fun_upd_nth:
  assumes "distinct xs" "i < length xs" "xs ! i = k"
  shows "map (f(k := v)) xs = (map f xs)[i := v]"
proof (rule nth_equalityI)
  show "length (map (f(k := v)) xs) = length ((map f xs)[i := v])" by simp
next
  fix j assume "j < length (map (f(k := v)) xs)"
  then have j: "j < length xs" by simp
  show "map (f(k := v)) xs ! j = (map f xs)[i := v] ! j"
  proof (cases "j = i")
    case True
    then show ?thesis using assms j by simp
  next
    case False
    then have "xs ! j \<noteq> k"
      using assms j by (auto simp add: nth_eq_iff_index_eq)
    then show ?thesis using False j by simp
  qed
qed

lemma insort_key_position:
  "\<exists>i\<le>length ys. insort_key g x ys = take i ys @ x # drop i ys"
proof (induction ys)
  case Nil
  show ?case by simp
next
  case (Cons y ys)
  show ?case
  proof (cases "g x \<le> g y")
    case True
    then have "insort_key g x (y # ys) = take 0 (y # ys) @ x # drop 0 (y # ys)" by simp
    moreover have "(0::nat) \<le> length (y # ys)" by simp
    ultimately show ?thesis by (rule_tac x = 0 in exI) simp
  next
    case False
    from Cons obtain i where i: "i \<le> length ys" "insort_key g x ys = take i ys @ x # drop i ys"
      by blast
    have "insort_key g x (y # ys) = take (Suc i) (y # ys) @ x # drop (Suc i) (y # ys)"
      using False i(2) by simp
    moreover have "Suc i \<le> length (y # ys)" using i(1) by simp
    ultimately show ?thesis by (rule_tac x = "Suc i" in exI) simp
  qed
qed

lemma nat_of_digits_inj_on_indices: "inj_on nat_of_digits {k. is_array_index k}"
proof (rule inj_on_inverseI[where g = digits_of_nat])
  fix k assume "k \<in> {k. is_array_index k}"
  then have "is_array_index k" by simp
  then show "digits_of_nat (nat_of_digits k) = k"
    unfolding is_array_index_def by (rule conjunct1)
qed

lemma sort_key_snoc:
  assumes "inj_on g (set xs \<union> {x})"
  shows "sort_key g (xs @ [x]) = insort_key g x (sort_key g xs)"
proof -
  have a: "inj_on g (set (xs @ [x]))" using assms by simp
  have b: "inj_on g (set xs)" using assms by (rule inj_on_subset) auto
  show ?thesis
    unfolding sort_key_conv_fold[OF a] sort_key_conv_fold[OF b] by simp
qed

lemma key_order_snoc_index:
  assumes "is_array_index k"
  shows "key_order (ks @ [k])
       = insort_key nat_of_digits k (sort_key nat_of_digits (filter is_array_index ks))
         @ filter (\<lambda>k. \<not> is_array_index k) ks"
proof -
  have "set (filter is_array_index ks) \<union> {k} \<subseteq> {k. is_array_index k}"
    using assms by auto
  then have "inj_on nat_of_digits (set (filter is_array_index ks) \<union> {k})"
    by (rule inj_on_subset[OF nat_of_digits_inj_on_indices])
  then have "sort_key nat_of_digits (filter is_array_index ks @ [k])
     = insort_key nat_of_digits k (sort_key nat_of_digits (filter is_array_index ks))"
    by (rule sort_key_snoc)
  then show ?thesis
    unfolding key_order_def using assms by simp
qed

lemma key_order_snoc:
  "\<exists>i\<le>length (key_order ks). key_order (ks @ [k]) = take i (key_order ks) @ k # drop i (key_order ks)"
proof (cases "is_array_index k")
  case False
  then have "key_order (ks @ [k]) = take (length (key_order ks)) (key_order ks) @ k # drop (length (key_order ks)) (key_order ks)"
    by (simp add: key_order_def)
  then show ?thesis by blast
next
  case True
  let ?s = "sort_key nat_of_digits (filter is_array_index ks)"
  let ?r = "filter (\<lambda>k. \<not> is_array_index k) ks"
  obtain i where i: "i \<le> length ?s"
    "insort_key nat_of_digits k ?s = take i ?s @ k # drop i ?s"
    using insort_key_position[of ?s nat_of_digits k] by blast
  have "key_order (ks @ [k]) = (take i ?s @ k # drop i ?s) @ ?r"
    unfolding key_order_snoc_index[OF True] i(2) ..
  also have "\<dots> = take i (?s @ ?r) @ k # drop i (?s @ ?r)"
    using i(1) by simp
  finally have "key_order (ks @ [k]) = take i (key_order ks) @ k # drop i (key_order ks)"
    unfolding key_order_def .
  moreover have "i \<le> length (key_order ks)"
    using i(1) by (simp add: key_order_def)
  ultimately show ?thesis by blast
qed

lemma add_summary_row_unknown:
  assumes "category l \<notin> {''study'', ''skill'', ''exercise'', ''all'', ''user_id'', ''display_name'', ''username''}"
  shows "add_summary_row u l
       = u\<lparr>all := js_add (all u) (minutes_or_zero l),
            u_others := (if category l = ''__proto__'' then u_others u
                         else Set_add (category l) (u_others u))\<rparr>"
  using assms by (simp add: add_summary_row_def add_summary_category_def Let_def)

lemma u_user_id_add_summary_row:
  "category l \<noteq> ''user_id'' \<Longrightarrow> u_user_id (add_summary_row u l) = u_user_id u"
  by (simp add: add_summary_row_def add_summary_category_def add_category_def Let_def)

lemma u_user_id_foldl:
  "\<forall>r\<in>set rows. category r \<noteq> ''user_id'' \<Longrightarrow> u_user_id (foldl add_summary_row u rows) = u_user_id u"
  by (induction rows arbitrary: u) (simp_all add: u_user_id_add_summary_row)

lemma u_user_id_owner_summary:
  assumes "\<forall>r\<in>set logs. category r \<noteq> ''user_id''" "k \<in> user_id ` set logs"
  shows "u_user_id (owner_summary k logs) = Text k"
proof -
  have ne: "rows_of k logs \<noteq> []"
    using assms(2) by (auto simp add: rows_of_def filter_empty_conv)
  then have "hd (rows_of k logs) \<in> set (rows_of k logs)" by simp
  then have h: "user_id (hd (rows_of k logs)) = k"
    by (simp add: rows_of_def)
  have "\<forall>r\<in>set (rows_of k logs). category r \<noteq> ''user_id''"
    using assms(1) by (simp add: rows_of_def)
  then have "u_user_id (owner_summary k logs) = u_user_id (seed_summary (hd (rows_of k logs)))"
    unfolding owner_summary_def by (rule u_user_id_foldl)
  then show ?thesis by (simp add: seed_summary_def h)
qed

lemma weeklyTotals_snoc:
  "weeklyTotals weekStart (logs @ [l])
     = (if occurred_at l < weekStart then weeklyTotals weekStart logs
        else add_row (weeklyTotals weekStart logs) l)"
  by (simp add: weeklyTotals_def)

lemma add_row_unknown:
  assumes "category l \<notin> {''study'', ''skill'', ''exercise'', ''all''}"
  shows "add_row t l = t\<lparr>all := js_add (all t) (minutes_or_zero l)\<rparr>"
  using assms by (simp add: add_row_def add_category_def Let_def)

lemma totalsByUser_snoc_old:
  assumes ids: "\<forall>r\<in>set (logs @ [l]). user_id r \<notin> set object_prototype_names"
    and old: "user_id l \<in> user_id ` set logs"
  shows "\<exists>i<length (key_order (owners logs)).
           key_order (owners logs) ! i = user_id l
         \<and> totalsByUser (logs @ [l])
           = Inr ((map (\<lambda>k. owner_summary k logs) (key_order (owners logs)))
                    [i := add_summary_row (owner_summary (user_id l) logs) l])"
proof -
  let ?ks = "key_order (owners logs)"
  let ?f = "\<lambda>k. owner_summary k logs"
  have "user_id l \<in> set ?ks"
    using old by (simp add: set_key_order set_owners)
  then obtain i where i: "i < length ?ks" "?ks ! i = user_id l"
    by (auto simp add: in_set_conv_nth)
  have d: "distinct ?ks"
    by (rule distinct_key_order[OF distinct_owners])
  have o: "owners (logs @ [l]) = owners logs"
    using old by (simp add: owners_snoc set_owners)
  have "(\<lambda>k. owner_summary k (logs @ [l])) = ?f(user_id l := add_summary_row (?f (user_id l)) l)"
    by (rule ext) (simp add: owner_summary_snoc_same[OF old] owner_summary_snoc_other)
  then have "totalsByUser (logs @ [l])
      = Inr (map (?f(user_id l := add_summary_row (?f (user_id l)) l)) ?ks)"
    unfolding totalsByUser_owners[OF ids] o by simp
  also have "map (?f(user_id l := add_summary_row (?f (user_id l)) l)) ?ks
      = (map ?f ?ks)[i := add_summary_row (?f (user_id l)) l]"
    using d i by (rule map_fun_upd_nth)
  finally show ?thesis using i by blast
qed

lemma totalsByUser_snoc_new:
  assumes ids: "\<forall>r\<in>set (logs @ [l]). user_id r \<notin> set object_prototype_names"
    and new: "user_id l \<notin> user_id ` set logs"
  shows "\<exists>i\<le>length (key_order (owners logs)).
         totalsByUser (logs @ [l])
           = Inr (take i (map (\<lambda>k. owner_summary k logs) (key_order (owners logs)))
                  @ [add_summary_row (seed_summary l) l]
                  @ drop i (map (\<lambda>k. owner_summary k logs) (key_order (owners logs))))"
proof -
  let ?ks = "key_order (owners logs)"
  let ?f = "\<lambda>k. owner_summary k logs"
  let ?g = "\<lambda>k. owner_summary k (logs @ [l])"
  have o: "owners (logs @ [l]) = owners logs @ [user_id l]"
    using new by (simp add: owners_snoc set_owners)
  obtain i where i: "i \<le> length ?ks"
    "key_order (owners logs @ [user_id l]) = take i ?ks @ user_id l # drop i ?ks"
    using key_order_snoc[of "owners logs" "user_id l"] by blast
  have same: "map ?g xs = map ?f xs" if "set xs \<subseteq> set ?ks" for xs
  proof (rule map_cong[OF refl])
    fix k assume "k \<in> set xs"
    then have "k \<in> user_id ` set logs"
      using that by (auto simp add: set_key_order set_owners)
    then have "k \<noteq> user_id l" using new by (auto simp add: image_iff)
    then show "?g k = ?f k" by (rule owner_summary_snoc_other)
  qed
  have "totalsByUser (logs @ [l]) = Inr (map ?g (take i ?ks @ user_id l # drop i ?ks))"
    unfolding totalsByUser_owners[OF ids] o i(2) ..
  also have "map ?g (take i ?ks @ user_id l # drop i ?ks)
      = map ?g (take i ?ks) @ [?g (user_id l)] @ map ?g (drop i ?ks)"
    by simp
  also have "map ?g (take i ?ks) = map ?f (take i ?ks)"
    by (rule same) (rule set_take_subset)
  also have "map ?g (drop i ?ks) = map ?f (drop i ?ks)"
    by (rule same) (rule set_drop_subset)
  also have "?g (user_id l) = add_summary_row (seed_summary l) l"
    by (rule owner_summary_snoc_new[OF new])
  finally show ?thesis using i(1) by (auto simp add: take_map drop_map)
qed

section \<open>Rows of a category that is not among the three\<close>

text \<open>
  Claim C3, as amended.  Neither page checks the category of a row, and neither signals a
  defect for it.  In the weekly totals of the profile page a counted row whose category is
  none of \<open>study\<close>, \<open>skill\<close>, \<open>exercise\<close>, \<open>all\<close> leaves the three category totals as they
  were and adds its minutes (0 when it has none) to \<open>all\<close>.  On rows in which no user id is
  the name of a property inherited from \<open>Object.prototype\<close>, \<open>totalsByUser\<close> returns its list of
  summaries without throwing, whatever the categories are; and a further row whose category
  is none of the seven fields of a summary changes one summary only, that of its user:
  the minutes are added to \<open>all\<close>, \<open>study\<close>, \<open>skill\<close> and \<open>exercise\<close> stay as they were, and the
  category becomes the name of a further property (the setter of \<open>__proto__\<close> ignores the
  assignment).  For a user not seen before, that summary is a new one in the list.
\<close>

theorem unknown_category_accepted:
  "(category l \<notin> {''study'', ''skill'', ''exercise'', ''all''} \<and> weekStart \<le> occurred_at l \<longrightarrow>
      weeklyTotals weekStart (logs @ [l])
        = (weeklyTotals weekStart logs)
            \<lparr>all := js_add (all (weeklyTotals weekStart logs)) (minutes_or_zero l)\<rparr>)
   \<and> ((\<forall>r\<in>set (weekly @ [l]). user_id r \<notin> set object_prototype_names) \<longrightarrow>
        (\<exists>us. totalsByUser weekly = Inr us
           \<and> (category l \<notin> {''study'', ''skill'', ''exercise'', ''all'',
                              ''user_id'', ''display_name'', ''username''} \<longrightarrow>
                (user_id l \<in> user_id ` set weekly \<longrightarrow>
                   (\<exists>i<length us.
                      totalsByUser (weekly @ [l])
                        = Inr (us[i := (us ! i)
                                 \<lparr>all := js_add (all (us ! i)) (minutes_or_zero l),
                                  u_others := (if category l = ''__proto__'' then u_others (us ! i)
                                               else Set_add (category l) (u_others (us ! i)))\<rparr>])
                      \<and> ((\<forall>r\<in>set weekly. category r \<noteq> ''user_id'')
                           \<longrightarrow> u_user_id (us ! i) = Text (user_id l))))
              \<and> (user_id l \<notin> user_id ` set weekly \<longrightarrow>
                   (\<exists>i\<le>length us.
                      totalsByUser (weekly @ [l])
                        = Inr (take i us
                               @ [(seed_summary l)
                                    \<lparr>all := js_add (Num 0) (minutes_or_zero l),
                                     u_others := (if category l = ''__proto__'' then []
                                                  else [category l])\<rparr>]
                               @ drop i us))))))"
proof (intro conjI impI)
  assume "category l \<notin> {''study'', ''skill'', ''exercise'', ''all''} \<and> weekStart \<le> occurred_at l"
  then show "weeklyTotals weekStart (logs @ [l])
        = (weeklyTotals weekStart logs)
            \<lparr>all := js_add (all (weeklyTotals weekStart logs)) (minutes_or_zero l)\<rparr>"
    by (simp add: weeklyTotals_snoc add_row_unknown)
next
  assume ids: "\<forall>r\<in>set (weekly @ [l]). user_id r \<notin> set object_prototype_names"
  then have ids': "\<forall>r\<in>set weekly. user_id r \<notin> set object_prototype_names" by simp
  let ?ks = "key_order (owners weekly)"
  let ?us = "map (\<lambda>k. owner_summary k weekly) ?ks"
  have us: "totalsByUser weekly = Inr ?us"
    by (rule totalsByUser_owners[OF ids'])
  have "category l \<notin> {''study'', ''skill'', ''exercise'', ''all'',
                              ''user_id'', ''display_name'', ''username''} \<longrightarrow>
                (user_id l \<in> user_id ` set weekly \<longrightarrow>
                   (\<exists>i<length ?us.
                      totalsByUser (weekly @ [l])
                        = Inr (?us[i := (?us ! i)
                                 \<lparr>all := js_add (all (?us ! i)) (minutes_or_zero l),
                                  u_others := (if category l = ''__proto__'' then u_others (?us ! i)
                                               else Set_add (category l) (u_others (?us ! i)))\<rparr>])
                      \<and> ((\<forall>r\<in>set weekly. category r \<noteq> ''user_id'')
                           \<longrightarrow> u_user_id (?us ! i) = Text (user_id l))))
              \<and> (user_id l \<notin> user_id ` set weekly \<longrightarrow>
                   (\<exists>i\<le>length ?us.
                      totalsByUser (weekly @ [l])
                        = Inr (take i ?us
                               @ [(seed_summary l)
                                    \<lparr>all := js_add (Num 0) (minutes_or_zero l),
                                     u_others := (if category l = ''__proto__'' then []
                                                  else [category l])\<rparr>]
                               @ drop i ?us)))"
  proof (intro conjI impI)
    assume c: "category l \<notin> {''study'', ''skill'', ''exercise'', ''all'',
                              ''user_id'', ''display_name'', ''username''}"
      and old: "user_id l \<in> user_id ` set weekly"
    from totalsByUser_snoc_old[OF ids old] obtain i where i: "i < length ?ks"
      "?ks ! i = user_id l"
      "totalsByUser (weekly @ [l])
         = Inr (?us[i := add_summary_row (owner_summary (user_id l) weekly) l])"
      by blast
    have n: "?us ! i = owner_summary (user_id l) weekly"
      using i(1,2) by simp
    have a: "totalsByUser (weekly @ [l])
        = Inr (?us[i := (?us ! i)
                 \<lparr>all := js_add (all (?us ! i)) (minutes_or_zero l),
                  u_others := (if category l = ''__proto__'' then u_others (?us ! i)
                               else Set_add (category l) (u_others (?us ! i)))\<rparr>])"
      unfolding i(3) n add_summary_row_unknown[OF c] ..
    have b: "(\<forall>r\<in>set weekly. category r \<noteq> ''user_id'') \<longrightarrow> u_user_id (?us ! i) = Text (user_id l)"
      unfolding n using old by (simp add: u_user_id_owner_summary)
    have "i < length ?us" using i(1) by simp
    then show "\<exists>i<length ?us.
          totalsByUser (weekly @ [l])
            = Inr (?us[i := (?us ! i)
                     \<lparr>all := js_add (all (?us ! i)) (minutes_or_zero l),
                      u_others := (if category l = ''__proto__'' then u_others (?us ! i)
                                   else Set_add (category l) (u_others (?us ! i)))\<rparr>])
          \<and> ((\<forall>r\<in>set weekly. category r \<noteq> ''user_id'')
               \<longrightarrow> u_user_id (?us ! i) = Text (user_id l))"
      using a b by blast
  next
    assume c: "category l \<notin> {''study'', ''skill'', ''exercise'', ''all'',
                              ''user_id'', ''display_name'', ''username''}"
      and new: "user_id l \<notin> user_id ` set weekly"
    from totalsByUser_snoc_new[OF ids new] obtain i where i: "i \<le> length ?ks"
      "totalsByUser (weekly @ [l])
         = Inr (take i ?us @ [add_summary_row (seed_summary l) l] @ drop i ?us)"
      by blast
    have s: "add_summary_row (seed_summary l) l
        = (seed_summary l)
            \<lparr>all := js_add (Num 0) (minutes_or_zero l),
             u_others := (if category l = ''__proto__'' then [] else [category l])\<rparr>"
      unfolding add_summary_row_unknown[OF c] by (simp add: seed_summary_def Set_add_def)
    have "i \<le> length ?us" using i(1) by simp
    then show "\<exists>i\<le>length ?us.
          totalsByUser (weekly @ [l])
            = Inr (take i ?us
                   @ [(seed_summary l)
                        \<lparr>all := js_add (Num 0) (minutes_or_zero l),
                         u_others := (if category l = ''__proto__'' then []
                                      else [category l])\<rparr>]
                   @ drop i ?us)"
      using i(2) unfolding s by blast
  qed
  then show "\<exists>us. totalsByUser weekly = Inr us
           \<and> (category l \<notin> {''study'', ''skill'', ''exercise'', ''all'',
                              ''user_id'', ''display_name'', ''username''} \<longrightarrow>
                (user_id l \<in> user_id ` set weekly \<longrightarrow>
                   (\<exists>i<length us.
                      totalsByUser (weekly @ [l])
                        = Inr (us[i := (us ! i)
                                 \<lparr>all := js_add (all (us ! i)) (minutes_or_zero l),
                                  u_others := (if category l = ''__proto__'' then u_others (us ! i)
                                               else Set_add (category l) (u_others (us ! i)))\<rparr>])
                      \<and> ((\<forall>r\<in>set weekly. category r \<noteq> ''user_id'')
                           \<longrightarrow> u_user_id (us ! i) = Text (user_id l))))
              \<and> (user_id l \<notin> user_id ` set weekly \<longrightarrow>
                   (\<exists>i\<le>length us.
                      totalsByUser (weekly @ [l])
                        = Inr (take i us
                               @ [(seed_summary l)
                                    \<lparr>all := js_add (Num 0) (minutes_or_zero l),
                                     u_others := (if category l = ''__proto__'' then []
                                                  else [category l])\<rparr>]
                               @ drop i us))))"
    using us by (intro exI[of _ ?us] conjI) 
qed

lemma not_index_u1: "\<not> is_array_index ''u1''" "\<not> is_array_index ''u2''"
  by (simp_all add: is_array_index_def nat_of_digits_def)

lemmas totalsByUser_eval =
  totalsByUser_def totalsByUser_step_def get_property_def object_prototype_names_def
  set_property_def Object_values_def own_properties_def unconvertible_def summary_read_def
  inherited_value_def example_row_def add_summary_row_def add_summary_category_def
  add_category_def seed_summary_def minutes_or_zero_def Set_add_def to_double_0
  to_double_numeral Let_def

text \<open>
  A row of category \<open>nap\<close> with 30 minutes: both pages return totals, with the 30 minutes in
  \<open>all\<close> and in no category.
\<close>

theorem unknown_category_example:
  "weeklyTotals 0 [example_row ''u1'' ''nap'' (Some (Num 30)) 5]
     = \<lparr>study = Num 0, skill = Num 0, exercise = Num 0, all = Num 30\<rparr>
   \<and> totalsByUser (weeklyLogs 0 [example_row ''u1'' ''nap'' (Some (Num 30)) 5])
     = Inr [\<lparr>study = Num 0, skill = Num 0, exercise = Num 0, all = Num 30,
             u_user_id = Text ''u1'', u_display_name = Text ''Unknown'',
             u_username = Text ''unknown'', u_others = [''nap'']\<rparr>]"
proof -
  have a: "weeklyTotals 0 [example_row ''u1'' ''nap'' (Some (Num 30)) 5]
     = \<lparr>study = Num 0, skill = Num 0, exercise = Num 0, all = Num 30\<rparr>"
    by (simp add: weeklyTotals_def example_row_def add_row_def add_category_def
        minutes_or_zero_def zero_totals_def to_double_0 to_double_numeral Let_def)
  have b: "totalsByUser (weeklyLogs 0 [example_row ''u1'' ''nap'' (Some (Num 30)) 5])
     = Inr [\<lparr>study = Num 0, skill = Num 0, exercise = Num 0, all = Num 30,
             u_user_id = Text ''u1'', u_display_name = Text ''Unknown'',
             u_username = Text ''unknown'', u_others = [''nap'']\<rparr>]"
    by (simp add: weeklyLogs_def totalsByUser_eval not_index_u1)
  show ?thesis using a b by (rule conjI)
qed

text \<open>
  After a row of 30 minutes of study, a row of category \<open>nap\<close> with 45 minutes, of the same
  user and of another.
\<close>

theorem unknown_category_accepted_witness:
  "weeklyTotals 0 ([example_row ''u1'' ''study'' (Some (Num 30)) 5]
                   @ [example_row ''u1'' ''nap'' (Some (Num 45)) 6])
     = \<lparr>study = Num 30, skill = Num 0, exercise = Num 0, all = Num 75\<rparr>
   \<and> totalsByUser ([example_row ''u1'' ''study'' (Some (Num 30)) 5]
                   @ [example_row ''u1'' ''nap'' (Some (Num 45)) 6])
     = Inr [\<lparr>study = Num 30, skill = Num 0, exercise = Num 0, all = Num 75,
             u_user_id = Text ''u1'', u_display_name = Text ''Unknown'',
             u_username = Text ''unknown'', u_others = [''nap'']\<rparr>]
   \<and> totalsByUser ([example_row ''u1'' ''study'' (Some (Num 30)) 5]
                   @ [example_row ''u2'' ''nap'' (Some (Num 45)) 6])
     = Inr [\<lparr>study = Num 30, skill = Num 0, exercise = Num 0, all = Num 30,
             u_user_id = Text ''u1'', u_display_name = Text ''Unknown'',
             u_username = Text ''unknown'', u_others = []\<rparr>,
            \<lparr>study = Num 0, skill = Num 0, exercise = Num 0, all = Num 45,
             u_user_id = Text ''u2'', u_display_name = Text ''Unknown'',
             u_username = Text ''unknown'', u_others = [''nap'']\<rparr>]"
proof -
  let ?a = "example_row ''u1'' ''study'' (Some (Num 30)) 5"
  let ?l = "example_row ''u1'' ''nap'' (Some (Num 45)) 6"
  let ?n = "example_row ''u2'' ''nap'' (Some (Num 45)) 6"
  let ?u = "\<lparr>study = Num 30, skill = Num 0, exercise = Num 0, all = Num 30,
             u_user_id = Text ''u1'', u_display_name = Text ''Unknown'',
             u_username = Text ''unknown'', u_others = []\<rparr>"
  have before: "totalsByUser [?a] = Inr [?u]"
    by (simp add: totalsByUser_eval not_index_u1)
  have wt: "weeklyTotals 0 [?a] = \<lparr>study = Num 30, skill = Num 0, exercise = Num 0, all = Num 30\<rparr>"
    by (simp add: weeklyTotals_def example_row_def add_row_def add_category_def
        minutes_or_zero_def zero_totals_def to_double_0 to_double_numeral Let_def)
  have c: "category ?l \<notin> {''study'', ''skill'', ''exercise'', ''all'',
                              ''user_id'', ''display_name'', ''username''}"
     "category ?n \<notin> {''study'', ''skill'', ''exercise'', ''all'',
                              ''user_id'', ''display_name'', ''username''}"
     "category ?l \<notin> {''study'', ''skill'', ''exercise'', ''all''}"
     "(0::int) \<le> occurred_at ?l"
     "category ?l \<noteq> ''__proto__''" "category ?n \<noteq> ''__proto__''"
    by (simp_all add: example_row_def)
  have ids: "\<forall>r\<in>set ([?a] @ [?l]). user_id r \<notin> set object_prototype_names"
    "\<forall>r\<in>set ([?a] @ [?n]). user_id r \<notin> set object_prototype_names"
    by (simp_all add: example_row_def object_prototype_names_def)
  have old: "user_id ?l \<in> user_id ` set [?a]" and new: "user_id ?n \<notin> user_id ` set [?a]"
    by (simp_all add: example_row_def)
  have m: "minutes_or_zero ?l = Num 45" "minutes_or_zero ?n = Num 45"
    by (simp_all add: example_row_def minutes_or_zero_def)
  note t1 = unknown_category_accepted[of ?l 0 "[?a]" "[?a]"]
  note t2 = unknown_category_accepted[of ?n 0 "[?a]" "[?a]"]
  have w1: "weeklyTotals 0 ([?a] @ [?l])
     = \<lparr>study = Num 30, skill = Num 0, exercise = Num 0, all = Num 75\<rparr>"
    using mp[OF t1[THEN conjunct1] conjI[OF c(3) c(4)]]
    unfolding wt m by (simp add: to_double_numeral)
  from mp[OF t1[THEN conjunct2] ids(1)] obtain us where us:
    "totalsByUser [?a] = Inr us"
    "\<exists>i<length us.
        totalsByUser ([?a] @ [?l])
          = Inr (us[i := (us ! i)
                   \<lparr>all := js_add (all (us ! i)) (minutes_or_zero ?l),
                    u_others := (if category ?l = ''__proto__'' then u_others (us ! i)
                                 else Set_add (category ?l) (u_others (us ! i)))\<rparr>])
        \<and> ((\<forall>r\<in>set [?a]. category r \<noteq> ''user_id'')
             \<longrightarrow> u_user_id (us ! i) = Text (user_id ?l))"
    using c(1) old by blast
  have us_eq: "us = [?u]" using us(1) before by simp
  have w2: "totalsByUser ([?a] @ [?l])
     = Inr [\<lparr>study = Num 30, skill = Num 0, exercise = Num 0, all = Num 75,
             u_user_id = Text ''u1'', u_display_name = Text ''Unknown'',
             u_username = Text ''unknown'', u_others = [''nap'']\<rparr>]"
    using us(2) unfolding us_eq m
    by (simp add: example_row_def Set_add_def to_double_numeral)
  from mp[OF t2[THEN conjunct2] ids(2)] obtain vs where vs:
    "totalsByUser [?a] = Inr vs"
    "\<exists>i\<le>length vs.
        totalsByUser ([?a] @ [?n])
          = Inr (take i vs
                 @ [(seed_summary ?n)
                      \<lparr>all := js_add (Num 0) (minutes_or_zero ?n),
                       u_others := (if category ?n = ''__proto__'' then []
                                    else [category ?n])\<rparr>]
                 @ drop i vs)"
    using c(2) new by blast
  have vs_eq: "vs = [?u]" using vs(1) before by simp
  have direct: "\<exists>us. totalsByUser ([?a] @ [?n]) = Inr us \<and> us ! 0 = ?u"
    by (simp add: totalsByUser_eval not_index_u1)
  from vs(2) obtain i where i: "i \<le> 1"
    "totalsByUser ([?a] @ [?n])
          = Inr (take i [?u]
                 @ [(seed_summary ?n)
                      \<lparr>all := js_add (Num 0) (minutes_or_zero ?n),
                       u_others := (if category ?n = ''__proto__'' then []
                                    else [category ?n])\<rparr>]
                 @ drop i [?u])"
    unfolding vs_eq by auto
  have "i = 1"
  proof (rule ccontr)
    assume "i \<noteq> 1"
    then have "i = 0" using i(1) by simp
    then show False using i(2) direct
      by (simp add: seed_summary_def example_row_def)
  qed
  then have w3: "totalsByUser ([?a] @ [?n])
     = Inr [?u,
            \<lparr>study = Num 0, skill = Num 0, exercise = Num 0, all = Num 45,
             u_user_id = Text ''u2'', u_display_name = Text ''Unknown'',
             u_username = Text ''unknown'', u_others = [''nap'']\<rparr>]"
    using i(2) unfolding m
    by (simp add: seed_summary_def example_row_def to_double_numeral)
  show ?thesis using w1 w2 w3 by (intro conjI)
qed

end
